theory Spec2Isabelle
  imports Main "HOL-Library.Word" "HOL-Library.AList"
begin

section \<open>Time and strings\<close>

text \<open>
  \<^verbatim>\<open>time.Duration\<close> is a count of nanoseconds and \<^verbatim>\<open>time.Time\<close> an instant; both are
  modelled as integers (nanoseconds). The values the program computes with them stay far
  below the 64-bit range (the largest product in the handler is 3600 seconds).
\<close>

type_synonym duration = int
type_synonym instant = int

definition Millisecond :: duration where
  "Millisecond = 1000000"

definition Second :: duration where
  "Second = 1000000000"

text \<open>\<^verbatim>\<open>strings.TrimSuffix(s, ".")\<close>: one trailing dot is removed, if there is one.\<close>

definition TrimSuffix_dot :: "string \<Rightarrow> string" where
  "TrimSuffix_dot s = (if s \<noteq> [] \<and> last s = CHR ''.'' then butlast s else s)"

text \<open>\<^verbatim>\<open>strings.HasSuffix(s, ".")\<close>.\<close>

definition HasSuffix_dot :: "string \<Rightarrow> bool" where
  "HasSuffix_dot s = (s \<noteq> [] \<and> last s = CHR ''.'')"

text \<open>
  \<^verbatim>\<open>strings.ToLower\<close> on the ASCII letters. Names unpacked from the wire by the DNS
  library are ASCII (other octets are presented as decimal escapes).
\<close>

definition lower_char :: "char \<Rightarrow> char" where
  "lower_char c =
     (if 65 \<le> (of_char c :: nat) \<and> (of_char c :: nat) \<le> 90
      then char_of ((of_char c :: nat) + 32) else c)"

definition ToLower :: "string \<Rightarrow> string" where
  "ToLower s = map lower_char s"

text \<open>\<^verbatim>\<open>strings.Split(s, ".")\<close>: always at least one part; the empty string gives one empty part.\<close>

fun Split_dot :: "string \<Rightarrow> string list" where
  "Split_dot [] = [[]]"
| "Split_dot (c # cs) =
     (if c = CHR ''.'' then [] # Split_dot cs
      else (c # hd (Split_dot cs)) # tl (Split_dot cs))"

text \<open>\<^verbatim>\<open>strings.Join(parts, ".")\<close>.\<close>

fun Join_dot :: "string list \<Rightarrow> string" where
  "Join_dot [] = []"
| "Join_dot [p] = p"
| "Join_dot (p # q # ps) = p @ CHR ''.'' # Join_dot (q # ps)"

section \<open>DNS messages\<close>

type_synonym u8 = "8 word"
type_synonym u16 = "16 word"
type_synonym u32 = "32 word"

record Question =
  Name :: string
  Qtype :: u16
  Qclass :: u16

record RR_Header =
  Hdr_Name :: string
  Rrtype :: u16
  Class :: u16
  Ttl :: u32

text \<open>The payload of a resource record, one constructor for each record struct the resolver builds.\<close>

datatype rdata =
    A_rdata "u8 list"
  | AAAA_rdata "u8 list"
  | CNAME_rdata string
  | MX_rdata u16 string
  | TXT_rdata "string list"
  | HTTPS_rdata u16 string
  | CAA_rdata u8 string string
  | SRV_rdata u16 u16 u16 string
  | SVCB_rdata u16 string
  | DS_rdata u16 u8 u8 string
  | DNSKEY_rdata u16 u8 u8 string
  | URI_rdata u16 u16 string
  | NAPTR_rdata u16 u16 string string string string
  | SSHFP_rdata u8 u8 string
  | TLSA_rdata u8 u8 u8 string
  | SMIMEA_rdata u8 u8 u8 string
  | CERT_rdata u16 u16 u8 string
  | Other_rdata "u8 list"

record RR =
  Hdr :: RR_Header
  Rdata :: rdata

record Msg =
  Id :: u16
  Response :: bool
  Opcode :: int
  Authoritative :: bool
  RecursionDesired :: bool
  RecursionAvailable :: bool
  CheckingDisabled :: bool
  Rcode :: int
  Question :: "Question list"
  Answer :: "RR list"
  Ns :: "RR list"
  Extra :: "RR list"

definition TypeA :: u16 where "TypeA = 1"
definition TypeNS :: u16 where "TypeNS = 2"
definition TypeCNAME :: u16 where "TypeCNAME = 5"
definition TypeSOA :: u16 where "TypeSOA = 6"
definition TypePTR :: u16 where "TypePTR = 12"
definition TypeMX :: u16 where "TypeMX = 15"
definition TypeTXT :: u16 where "TypeTXT = 16"
definition TypeAAAA :: u16 where "TypeAAAA = 28"
definition TypeSRV :: u16 where "TypeSRV = 33"
definition TypeNAPTR :: u16 where "TypeNAPTR = 35"
definition TypeCERT :: u16 where "TypeCERT = 37"
definition TypeDS :: u16 where "TypeDS = 43"
definition TypeSSHFP :: u16 where "TypeSSHFP = 44"
definition TypeDNSKEY :: u16 where "TypeDNSKEY = 48"
definition TypeTLSA :: u16 where "TypeTLSA = 52"
definition TypeSMIMEA :: u16 where "TypeSMIMEA = 53"
definition TypeSVCB :: u16 where "TypeSVCB = 64"
definition TypeHTTPS :: u16 where "TypeHTTPS = 65"
definition TypeURI :: u16 where "TypeURI = 256"
definition TypeCAA :: u16 where "TypeCAA = 257"

definition ClassINET :: u16 where "ClassINET = 1"

definition RcodeSuccess :: int where "RcodeSuccess = 0"
definition RcodeFormatError :: int where "RcodeFormatError = 1"
definition RcodeServerFailure :: int where "RcodeServerFailure = 2"
definition RcodeNameError :: int where "RcodeNameError = 3"
definition RcodeNotImplemented :: int where "RcodeNotImplemented = 4"

definition OpcodeQuery :: int where "OpcodeQuery = 0"

text \<open>The zero message \<^verbatim>\<open>&dns.Msg{}\<close>.\<close>

definition zero_Msg :: Msg where
  "zero_Msg = \<lparr>Id = 0, Response = False, Opcode = 0, Authoritative = False,
     RecursionDesired = False, RecursionAvailable = False, CheckingDisabled = False,
     Rcode = 0, Question = [], Answer = [], Ns = [], Extra = []\<rparr>"

text \<open>
  \<^verbatim>\<open>Msg.SetReply\<close> of the DNS library: the id and opcode of the request are copied, the
  response bit is set, the RD and CD bits are copied for a standard query, the rcode is
  NOERROR, and the question section becomes the first question of the request, if any.
\<close>

definition SetReply :: "Msg \<Rightarrow> Msg \<Rightarrow> Msg" where
  "SetReply m request =
     (let m1 = m\<lparr>Id := Id request, Response := True, Opcode := Opcode request\<rparr>;
          m2 = (if Opcode m1 = OpcodeQuery
                then m1\<lparr>RecursionDesired := RecursionDesired request,
                        CheckingDisabled := CheckingDisabled request\<rparr>
                else m1);
          m3 = m2\<lparr>Rcode := RcodeSuccess\<rparr>
      in (case Question request of [] \<Rightarrow> m3 | q # _ \<Rightarrow> m3\<lparr>Question := [q]\<rparr>))"

section \<open>Handler: TTL extraction\<close>

text \<open>The loop of \<^verbatim>\<open>extractTTL\<close> over the answer section, on unsigned 32-bit TTLs.\<close>

fun minTTL_loop :: "u32 \<Rightarrow> RR list \<Rightarrow> u32" where
  "minTTL_loop minTTL [] = minTTL"
| "minTTL_loop minTTL (rr # rrs) =
     minTTL_loop (if Ttl (Hdr rr) < minTTL then Ttl (Hdr rr) else minTTL) rrs"

definition extractTTL :: "Msg \<Rightarrow> duration" where
  "extractTTL msg =
     (if length (Answer msg) = 0 then 300 * Second
      else (let minTTL = minTTL_loop 3600 (Answer msg);
                minTTL = (if minTTL < 60 then 60 else minTTL)
            in uint minTTL * Second))"


text \<open>An A record for \<^verbatim>\<open>example.com.\<close> with the given TTL, used in the examples below.\<close>

definition rr_ttl :: "u32 \<Rightarrow> RR" where
  "rr_ttl t = \<lparr>Hdr = \<lparr>Hdr_Name = ''example.com.'', Rrtype = TypeA, Class = ClassINET, Ttl = t\<rparr>,
     Rdata = A_rdata [192, 0, 2, 7]\<rparr>"

section \<open>Configuration records\<close>

datatype MXRecord = MXRecord (MX_Priority: int) (MX_Target: string)
datatype HTTPSRecord = HTTPSRecord int string string
datatype CAARecord = CAARecord int string string
datatype SRVRecord = SRVRecord int int int string
datatype SVCBRecord = SVCBRecord int string string
datatype DSRecord = DSRecord int int int string
datatype DNSKEYRecord = DNSKEYRecord int int int string
datatype URIRecord = URIRecord int int string
datatype NAPTRRecord = NAPTRRecord int int string string string string
datatype SSHFPRecord = SSHFPRecord int int string
datatype TLSARecord = TLSARecord int int int string
datatype SMIMEARecord = SMIMEARecord int int int string
datatype CERTRecord = CERTRecord int int int string

text \<open>
  \<^verbatim>\<open>RecordsConfig\<close>: one table per record type. A Go map is an association list with
  distinct keys here; the list order stands for one iteration order of the map, and a nil
  map is the empty list (both read as empty).
\<close>

record RecordsConfig =
  records_A :: "(string \<times> string) list"
  records_AAAA :: "(string \<times> string) list"
  records_CNAME :: "(string \<times> string) list"
  records_MX :: "(string \<times> MXRecord) list"
  records_TXT :: "(string \<times> string) list"
  records_HTTPS :: "(string \<times> HTTPSRecord) list"
  records_CAA :: "(string \<times> CAARecord) list"
  records_SRV :: "(string \<times> SRVRecord) list"
  records_SVCB :: "(string \<times> SVCBRecord) list"
  records_DS :: "(string \<times> DSRecord) list"
  records_DNSKEY :: "(string \<times> DNSKEYRecord) list"
  records_URI :: "(string \<times> URIRecord) list"
  records_NAPTR :: "(string \<times> NAPTRRecord) list"
  records_SSHFP :: "(string \<times> SSHFPRecord) list"
  records_TLSA :: "(string \<times> TLSARecord) list"
  records_SMIMEA :: "(string \<times> SMIMEARecord) list"
  records_CERT :: "(string \<times> CERTRecord) list"

definition no_records :: RecordsConfig where
  "no_records = \<lparr>records_A = [], records_AAAA = [], records_CNAME = [], records_MX = [],
     records_TXT = [], records_HTTPS = [], records_CAA = [], records_SRV = [],
     records_SVCB = [], records_DS = [], records_DNSKEY = [], records_URI = [],
     records_NAPTR = [], records_SSHFP = [], records_TLSA = [], records_SMIMEA = [],
     records_CERT = []\<rparr>"

text \<open>
  The three functions of Go's \<^verbatim>\<open>net\<close> package the program calls: \<^verbatim>\<open>net.ParseIP\<close>,
  \<^verbatim>\<open>IP.To4\<close> and \<^verbatim>\<open>IP.To16\<close> (\<open>None\<close> is nil). They are library code and are taken as
  parameters.
\<close>

record netlib =
  ParseIP :: "string \<Rightarrow> u8 list option"
  To4 :: "u8 list \<Rightarrow> u8 list option"
  To16 :: "u8 list \<Rightarrow> u8 list option"

section \<open>Local resolver\<close>

definition answer_hdr :: "Question \<Rightarrow> u16 \<Rightarrow> RR_Header" where
  "answer_hdr question t =
     \<lparr>Hdr_Name = Name question, Rrtype = t, Class = ClassINET, Ttl = 300\<rparr>"

definition dotted :: "string \<Rightarrow> string" where
  "dotted target = (if \<not> HasSuffix_dot target then target @ ''.'' else target)"

text \<open>
  The \<^verbatim>\<open>switch question.Qtype\<close> of \<^verbatim>\<open>Resolve\<close>: \<open>Some rr\<close> when the switch sets
  \<^verbatim>\<open>found\<close>, with the record it builds. The integer fields of the configuration are
  converted to their wire width by truncation, as Go's conversions do.
\<close>

definition exact_record :: "netlib \<Rightarrow> RecordsConfig \<Rightarrow> string \<Rightarrow> Question \<Rightarrow> RR option" where
  "exact_record net records domain question =
    (if Qtype question = TypeA then
       (case map_of (records_A records) domain of None \<Rightarrow> None
        | Some ip \<Rightarrow>
           (case ParseIP net ip of None \<Rightarrow> None
            | Some parsedIP \<Rightarrow>
               (case To4 net parsedIP of None \<Rightarrow> None
                | Some ip4 \<Rightarrow> Some \<lparr>Hdr = answer_hdr question TypeA, Rdata = A_rdata ip4\<rparr>)))
     else if Qtype question = TypeAAAA then
       (case map_of (records_AAAA records) domain of None \<Rightarrow> None
        | Some ip \<Rightarrow>
           (case ParseIP net ip of None \<Rightarrow> None
            | Some parsedIP \<Rightarrow>
               (case To16 net parsedIP of None \<Rightarrow> None
                | Some ip16 \<Rightarrow> Some \<lparr>Hdr = answer_hdr question TypeAAAA, Rdata = AAAA_rdata ip16\<rparr>)))
     else if Qtype question = TypeCNAME then
       (case map_of (records_CNAME records) domain of None \<Rightarrow> None
        | Some target \<Rightarrow>
           Some \<lparr>Hdr = answer_hdr question TypeCNAME, Rdata = CNAME_rdata (dotted target)\<rparr>)
     else if Qtype question = TypeMX then
       (case map_of (records_MX records) domain of None \<Rightarrow> None
        | Some mx \<Rightarrow>
           Some \<lparr>Hdr = answer_hdr question TypeMX,
                 Rdata = MX_rdata (word_of_int (MX_Priority mx)) (dotted (MX_Target mx))\<rparr>)
     else if Qtype question = TypeTXT then
       (case map_of (records_TXT records) domain of None \<Rightarrow> None
        | Some txt \<Rightarrow> Some \<lparr>Hdr = answer_hdr question TypeTXT, Rdata = TXT_rdata [txt]\<rparr>)
     else if Qtype question = TypeHTTPS then
       (case map_of (records_HTTPS records) domain of None \<Rightarrow> None
        | Some (HTTPSRecord priority target params) \<Rightarrow>
           Some \<lparr>Hdr = answer_hdr question TypeHTTPS,
                 Rdata = HTTPS_rdata (word_of_int priority) target\<rparr>)
     else if Qtype question = TypeCAA then
       (case map_of (records_CAA records) domain of None \<Rightarrow> None
        | Some (CAARecord flag tag val) \<Rightarrow>
           Some \<lparr>Hdr = answer_hdr question TypeCAA,
                 Rdata = CAA_rdata (word_of_int flag) tag val\<rparr>)
     else if Qtype question = TypeSRV then
       (case map_of (records_SRV records) domain of None \<Rightarrow> None
        | Some (SRVRecord priority weight port target) \<Rightarrow>
           Some \<lparr>Hdr = answer_hdr question TypeSRV,
                 Rdata = SRV_rdata (word_of_int priority) (word_of_int weight)
                           (word_of_int port) target\<rparr>)
     else if Qtype question = TypeSVCB then
       (case map_of (records_SVCB records) domain of None \<Rightarrow> None
        | Some (SVCBRecord priority target params) \<Rightarrow>
           Some \<lparr>Hdr = answer_hdr question TypeSVCB,
                 Rdata = SVCB_rdata (word_of_int priority) target\<rparr>)
     else if Qtype question = TypeDS then
       (case map_of (records_DS records) domain of None \<Rightarrow> None
        | Some (DSRecord keytag algorithm digesttype digest) \<Rightarrow>
           Some \<lparr>Hdr = answer_hdr question TypeDS,
                 Rdata = DS_rdata (word_of_int keytag) (word_of_int algorithm)
                           (word_of_int digesttype) digest\<rparr>)
     else if Qtype question = TypeDNSKEY then
       (case map_of (records_DNSKEY records) domain of None \<Rightarrow> None
        | Some (DNSKEYRecord flags protocol algorithm publickey) \<Rightarrow>
           Some \<lparr>Hdr = answer_hdr question TypeDNSKEY,
                 Rdata = DNSKEY_rdata (word_of_int flags) (word_of_int protocol)
                           (word_of_int algorithm) publickey\<rparr>)
     else if Qtype question = TypeURI then
       (case map_of (records_URI records) domain of None \<Rightarrow> None
        | Some (URIRecord priority weight target) \<Rightarrow>
           Some \<lparr>Hdr = answer_hdr question TypeURI,
                 Rdata = URI_rdata (word_of_int priority) (word_of_int weight) target\<rparr>)
     else if Qtype question = TypeNAPTR then
       (case map_of (records_NAPTR records) domain of None \<Rightarrow> None
        | Some (NAPTRRecord ord preference flags service regexp replacement) \<Rightarrow>
           Some \<lparr>Hdr = answer_hdr question TypeNAPTR,
                 Rdata = NAPTR_rdata (word_of_int ord) (word_of_int preference)
                           flags service regexp replacement\<rparr>)
     else if Qtype question = TypeSSHFP then
       (case map_of (records_SSHFP records) domain of None \<Rightarrow> None
        | Some (SSHFPRecord algorithm typ fingerprint) \<Rightarrow>
           Some \<lparr>Hdr = answer_hdr question TypeSSHFP,
                 Rdata = SSHFP_rdata (word_of_int algorithm) (word_of_int typ) fingerprint\<rparr>)
     else if Qtype question = TypeTLSA then
       (case map_of (records_TLSA records) domain of None \<Rightarrow> None
        | Some (TLSARecord usage selector matchingtype certificate) \<Rightarrow>
           Some \<lparr>Hdr = answer_hdr question TypeTLSA,
                 Rdata = TLSA_rdata (word_of_int usage) (word_of_int selector)
                           (word_of_int matchingtype) certificate\<rparr>)
     else if Qtype question = TypeSMIMEA then
       (case map_of (records_SMIMEA records) domain of None \<Rightarrow> None
        | Some (SMIMEARecord usage selector matchingtype certificate) \<Rightarrow>
           Some \<lparr>Hdr = answer_hdr question TypeSMIMEA,
                 Rdata = SMIMEA_rdata (word_of_int usage) (word_of_int selector)
                           (word_of_int matchingtype) certificate\<rparr>)
     else if Qtype question = TypeCERT then
       (case map_of (records_CERT records) domain of None \<Rightarrow> None
        | Some (CERTRecord typ keytag algorithm certificate) \<Rightarrow>
           Some \<lparr>Hdr = answer_hdr question TypeCERT,
                 Rdata = CERT_rdata (word_of_int typ) (word_of_int keytag)
                           (word_of_int algorithm) certificate\<rparr>)
     else None)"

text \<open>
  The candidates of the two wildcard loops, in loop order: for \<open>i\<close> from 0 to
  \<open>len(parts) - 1\<close>, \<^verbatim>\<open>"*." + strings.Join(parts[i+1:], ".")\<close>.
\<close>

definition wildcards :: "string list \<Rightarrow> string list" where
  "wildcards parts = map (\<lambda>i. ''*.'' @ Join_dot (drop (i + 1) parts)) [0..<length parts]"

text \<open>The \<^verbatim>\<open>switch qtype\<close> inside the loop of \<^verbatim>\<open>hasWildcardMatch\<close>.\<close>

definition wildcard_exists :: "RecordsConfig \<Rightarrow> u16 \<Rightarrow> string \<Rightarrow> bool" where
  "wildcard_exists records qtype wildcard =
    (if qtype = TypeA then map_of (records_A records) wildcard \<noteq> None
     else if qtype = TypeAAAA then map_of (records_AAAA records) wildcard \<noteq> None
     else if qtype = TypeCNAME then map_of (records_CNAME records) wildcard \<noteq> None
     else if qtype = TypeMX then map_of (records_MX records) wildcard \<noteq> None
     else if qtype = TypeTXT then map_of (records_TXT records) wildcard \<noteq> None
     else False)"

fun hasWildcardMatch_loop :: "RecordsConfig \<Rightarrow> u16 \<Rightarrow> string list \<Rightarrow> bool" where
  "hasWildcardMatch_loop records qtype [] = False"
| "hasWildcardMatch_loop records qtype (wildcard # rest) =
     (if wildcard_exists records qtype wildcard then True
      else hasWildcardMatch_loop records qtype rest)"

definition hasWildcardMatch :: "RecordsConfig \<Rightarrow> string \<Rightarrow> u16 \<Rightarrow> bool" where
  "hasWildcardMatch records domain qtype =
     hasWildcardMatch_loop records qtype (wildcards (Split_dot domain))"

text \<open>
  \<^verbatim>\<open>resolveWildcard\<close> calls \<^verbatim>\<open>Resolve\<close> on every candidate, and \<^verbatim>\<open>Resolve\<close> calls
  \<^verbatim>\<open>resolveWildcard\<close> again: the recursion of the source is not bounded by anything in
  its text. The model carries fuel, the number of nested \<^verbatim>\<open>Resolve\<close> calls still allowed.
  The outer \<open>None\<close> says that the fuel ran out; \<open>Some None\<close> is the miss \<^verbatim>\<open>(nil, false)\<close>
  and \<open>Some (Some response)\<close> the hit \<^verbatim>\<open>(response, true)\<close>. The loop takes \<^verbatim>\<open>Resolve\<close>
  as its parameter \<open>R\<close>.
\<close>

fun resolveWildcard_loop ::
  "(Question \<Rightarrow> Msg option option) \<Rightarrow> Question \<Rightarrow> string list \<Rightarrow> Msg option option" where
  "resolveWildcard_loop R question [] = Some None"
| "resolveWildcard_loop R question (wildcard # rest) =
     (case R \<lparr>Name = wildcard @ ''.'', Qtype = Qtype question, Qclass = Qclass question\<rparr> of
        None \<Rightarrow> None
      | Some (Some response) \<Rightarrow>
          Some (Some (response\<lparr>Answer :=
            map (\<lambda>rr. rr\<lparr>Hdr := (Hdr rr)\<lparr>Hdr_Name := Name question\<rparr>\<rparr>) (Answer response)\<rparr>))
      | Some None \<Rightarrow> resolveWildcard_loop R question rest)"

definition resolveWildcard ::
  "(Question \<Rightarrow> Msg option option) \<Rightarrow> string \<Rightarrow> Question \<Rightarrow> Msg option option" where
  "resolveWildcard R domain question =
     resolveWildcard_loop R question (wildcards (Split_dot domain))"

definition reply_skeleton :: "Question \<Rightarrow> Msg" where
  "reply_skeleton question =
     (SetReply zero_Msg (zero_Msg\<lparr>Question := [question]\<rparr>))
       \<lparr>Authoritative := True, RecursionAvailable := False\<rparr>"

primrec Resolve :: "nat \<Rightarrow> netlib \<Rightarrow> RecordsConfig \<Rightarrow> Question \<Rightarrow> Msg option option" where
  "Resolve 0 net records question = None"
| "Resolve (Suc fuel) net records question =
     (let domain = ToLower (TrimSuffix_dot (Name question));
          response = reply_skeleton question
      in (case exact_record net records domain question of
            Some rr \<Rightarrow>
              Some (Some (response\<lparr>Answer := Answer response @ [rr], Rcode := RcodeSuccess\<rparr>))
          | None \<Rightarrow>
              if hasWildcardMatch records domain (Qtype question)
              then resolveWildcard (Resolve fuel net records) domain question
              else Some None))"

text \<open>The records and the questions of the wildcard examples.\<close>

definition example_records :: RecordsConfig where
  "example_records = no_records\<lparr>records_A := [(''*.example'', ''192.0.2.7'')]\<rparr>"

definition v4_prefix :: "u8 list" where
  "v4_prefix = [0, 0, 0, 0, 0, 0, 0, 0, 0, 0, 255, 255]"

definition example_net :: netlib where
  "example_net =
     \<lparr>ParseIP = (\<lambda>s. if s = ''192.0.2.7'' then Some (v4_prefix @ [192, 0, 2, 7]) else None),
      To4 = (\<lambda>ip. if length ip = 4 then Some ip
                   else if length ip = 16 \<and> take 12 ip = v4_prefix then Some (drop 12 ip)
                   else None),
      To16 = (\<lambda>ip. if length ip = 4 then Some (v4_prefix @ ip)
                    else if length ip = 16 then Some ip else None)\<rparr>"

definition question_A :: "string \<Rightarrow> Question" where
  "question_A name = \<lparr>Name = name, Qtype = TypeA, Qclass = ClassINET\<rparr>"

section \<open>LRU cache\<close>

text \<open>
  The Go cache holds pointers: the map \<^verbatim>\<open>items\<close> and the recency list \<^verbatim>\<open>evictList\<close> both
  point to the same \<^verbatim>\<open>CacheEntry\<close> objects, and each entry points back to its list element.
  The model has an explicit store: \<open>heap\<close> maps an address to the entry allocated there,
  \<open>items\<close> maps a key to an address, \<open>evictList\<close> is the list of addresses from front
  (most recently used) to back, and \<open>fresh\<close> is the next unused address. An entry and its
  list element share one address, since the source creates exactly one element per entry.
  Responses are values, so \<^verbatim>\<open>Copy()\<close> is the identity and what is stored or returned
  is detached from the caller's message by construction.
\<close>

record CacheEntry =
  Key :: string
  Entry_Response :: Msg
  ExpiresAt :: instant

record SerializableCacheEntry =
  SKey :: string
  SResponse :: Msg
  SExpiresAt :: instant

record LRUCache =
  capacity :: int
  items :: "(string \<times> nat) list"
  evictList :: "nat list"
  defaultTTL :: duration
  heap :: "nat \<Rightarrow> CacheEntry"
  fresh :: nat

definition NewLRUCache :: "int \<Rightarrow> duration \<Rightarrow> LRUCache" where
  "NewLRUCache cap dttl =
     \<lparr>capacity = cap, items = [], evictList = [], defaultTTL = dttl,
      heap = (\<lambda>_. \<lparr>Key = [], Entry_Response = zero_Msg, ExpiresAt = 0\<rparr>), fresh = 0\<rparr>"

text \<open>
  The operations of \<^verbatim>\<open>container/list\<close> the cache uses. \<^verbatim>\<open>MoveToFront\<close> and \<^verbatim>\<open>Remove\<close> do
  nothing for an element that is not in the list.
\<close>

definition MoveToFront :: "nat list \<Rightarrow> nat \<Rightarrow> nat list" where
  "MoveToFront l e = (if e \<in> set l then e # remove1 e l else l)"

definition Remove :: "nat list \<Rightarrow> nat \<Rightarrow> nat list" where
  "Remove l e = remove1 e l"

definition PushFront :: "nat list \<Rightarrow> nat \<Rightarrow> nat list" where
  "PushFront l e = e # l"

definition Delete :: "LRUCache \<Rightarrow> string \<Rightarrow> LRUCache" where
  "Delete c key =
     (case map_of (items c) key of
        Some entry \<Rightarrow>
          c\<lparr>evictList := Remove (evictList c) entry, items := AList.delete key (items c)\<rparr>
      | None \<Rightarrow> c)"

text \<open>\<^verbatim>\<open>Get\<close> at the instant \<open>now\<close>: the returned response (\<open>None\<close> is a miss) and the cache after the call.\<close>

definition Get :: "LRUCache \<Rightarrow> string \<Rightarrow> instant \<Rightarrow> Msg option \<times> LRUCache" where
  "Get c key now =
     (case map_of (items c) key of
        None \<Rightarrow> (None, c)
      | Some entry \<Rightarrow>
          if now > ExpiresAt (heap c entry) then (None, Delete c key)
          else (Some (Entry_Response (heap c entry)),
                c\<lparr>evictList := MoveToFront (evictList c) entry\<rparr>))"

definition removeOldest :: "LRUCache \<Rightarrow> LRUCache" where
  "removeOldest c =
     (case evictList c of
        [] \<Rightarrow> c
      | _ # _ \<Rightarrow>
          (let element = last (evictList c)
           in c\<lparr>evictList := Remove (evictList c) element,
                items := AList.delete (Key (heap c element)) (items c)\<rparr>))"

definition Set :: "LRUCache \<Rightarrow> string \<Rightarrow> Msg \<Rightarrow> duration \<Rightarrow> instant \<Rightarrow> LRUCache" where
  "Set c key response ttl0 now =
     (let ttl = (if ttl0 = 0 then defaultTTL c else ttl0)
      in (case map_of (items c) key of
            Some entry \<Rightarrow>
              c\<lparr>heap := (heap c)(entry := (heap c entry)
                     \<lparr>Entry_Response := response, ExpiresAt := now + ttl\<rparr>),
                evictList := MoveToFront (evictList c) entry\<rparr>
          | None \<Rightarrow>
              (let c1 = (if int (length (evictList c)) \<ge> capacity c then removeOldest c else c);
                   entry = fresh c1
               in c1\<lparr>heap := (heap c1)(entry :=
                       \<lparr>Key = key, Entry_Response = response, ExpiresAt = now + ttl\<rparr>),
                     evictList := PushFront (evictList c1) entry,
                     items := AList.update key entry (items c1),
                     fresh := Suc entry\<rparr>)))"

definition Clear :: "LRUCache \<Rightarrow> LRUCache" where
  "Clear c = c\<lparr>items := [], evictList := []\<rparr>"

definition Size :: "LRUCache \<Rightarrow> int" where
  "Size c = int (length (items c))"

text \<open>
  \<^verbatim>\<open>removeExpired\<close>: the first loop collects the expired elements from the back of the list
  to the front, the second removes each of them from the list and its key from the map.
\<close>

definition remove_element :: "nat \<Rightarrow> LRUCache \<Rightarrow> LRUCache" where
  "remove_element element c =
     c\<lparr>evictList := Remove (evictList c) element,
       items := AList.delete (Key (heap c element)) (items c)\<rparr>"

definition removeExpired :: "LRUCache \<Rightarrow> instant \<Rightarrow> LRUCache" where
  "removeExpired c now =
     (let toRemove = filter (\<lambda>element. now > ExpiresAt (heap c element)) (rev (evictList c))
      in fold remove_element toRemove c)"

text \<open>
  The \<^verbatim>\<open>encoding/gob\<close> encoder and decoder are library code, taken as parameters: \<open>Encode\<close>
  gives the file contents written for a list of entries, or an error; \<open>Decode\<close> reads file
  contents back. The type \<open>'f\<close> of file contents is left open.
\<close>

record 'f gob =
  Encode :: "SerializableCacheEntry list \<Rightarrow> string + 'f"
  Decode :: "'f \<Rightarrow> string + SerializableCacheEntry list"

text \<open>The entries \<^verbatim>\<open>DumpToFile\<close> collects: those of the map with \<^verbatim>\<open>now.Before(entry.ExpiresAt)\<close>.\<close>

definition dump_entries :: "LRUCache \<Rightarrow> instant \<Rightarrow> SerializableCacheEntry list" where
  "dump_entries c now =
     map (\<lambda>(key, entry). \<lparr>SKey = Key (heap c entry),
                           SResponse = Entry_Response (heap c entry),
                           SExpiresAt = ExpiresAt (heap c entry)\<rparr>)
       (filter (\<lambda>(key, entry). now < ExpiresAt (heap c entry)) (items c))"

text \<open>
  \<^verbatim>\<open>DumpToFile\<close>: \<open>create\<close> is the error of \<^verbatim>\<open>os.Create\<close>, if any; the result is the error
  returned or the contents of the file written.
\<close>

definition DumpToFile :: "'f gob \<Rightarrow> LRUCache \<Rightarrow> string option \<Rightarrow> instant \<Rightarrow> string + 'f" where
  "DumpToFile g c create now =
     (case create of
        Some err \<Rightarrow> Inl err
      | None \<Rightarrow> Encode g (dump_entries c now))"

definition load_entry :: "instant \<Rightarrow> SerializableCacheEntry \<Rightarrow> LRUCache \<Rightarrow> LRUCache" where
  "load_entry now entry c =
     (if now < SExpiresAt entry then
        (let c1 = (if int (length (evictList c)) \<ge> capacity c then removeOldest c else c);
             cacheEntry = fresh c1
         in c1\<lparr>heap := (heap c1)(cacheEntry :=
                 \<lparr>Key = SKey entry, Entry_Response = SResponse entry,
                  ExpiresAt = SExpiresAt entry\<rparr>),
               evictList := PushFront (evictList c1) cacheEntry,
               items := AList.update (SKey entry) cacheEntry (items c1),
               fresh := Suc cacheEntry\<rparr>)
      else c)"

fun LoadFromFile_loop :: "instant \<Rightarrow> SerializableCacheEntry list \<Rightarrow> LRUCache \<Rightarrow> LRUCache" where
  "LoadFromFile_loop now [] c = c"
| "LoadFromFile_loop now (entry # rest) c = LoadFromFile_loop now rest (load_entry now entry c)"

text \<open>
  \<^verbatim>\<open>LoadFromFile\<close>: \<open>file\<close> is the error of \<^verbatim>\<open>os.Open\<close> or the contents of the file; the
  result is the error returned, if any, and the cache after the call.
\<close>

definition LoadFromFile ::
  "'f gob \<Rightarrow> LRUCache \<Rightarrow> string + 'f \<Rightarrow> instant \<Rightarrow> string option \<times> LRUCache" where
  "LoadFromFile g c file now =
     (case file of
        Inl err \<Rightarrow> (Some err, c)
      | Inr contents \<Rightarrow>
          (case Decode g contents of
             Inl err \<Rightarrow> (Some err, c)
           | Inr entries \<Rightarrow> (None, LoadFromFile_loop now entries c)))"

text \<open>
  \<^verbatim>\<open>GenerateCacheKey\<close>. The tables \<^verbatim>\<open>dns.TypeToString\<close> and \<^verbatim>\<open>dns.ClassToString\<close> belong to
  the DNS library and are parameters.
\<close>

record mnemonics =
  TypeToString :: "u16 \<Rightarrow> string"
  ClassToString :: "u16 \<Rightarrow> string"

definition GenerateCacheKey :: "mnemonics \<Rightarrow> Question \<Rightarrow> string" where
  "GenerateCacheKey names question =
     Name question @ '':'' @ TypeToString names (Qtype question) @ '':'' @
     ClassToString names (Qclass question)"

text \<open>
  What a client can observe of a cache: \<open>lookup\<close> is the entry stored under a key, and
  \<open>recency\<close> the keys of the recency list from most to least recently used.
\<close>

definition lookup :: "LRUCache \<Rightarrow> string \<Rightarrow> CacheEntry option" where
  "lookup c key = map_option (heap c) (map_of (items c) key)"

definition recency :: "LRUCache \<Rightarrow> string list" where
  "recency c = map (\<lambda>element. Key (heap c element)) (evictList c)"

text \<open>
  A consistent cache: the map has one binding per key, the list has no element twice, the
  map binds a key to an entry exactly when that entry is in the list and carries that
  key, and every address in use is below \<open>fresh\<close>.
\<close>

definition wf :: "LRUCache \<Rightarrow> bool" where
  "wf c =
     (distinct (map fst (items c)) \<and> distinct (evictList c) \<and>
      (\<forall>key entry. map_of (items c) key = Some entry \<longleftrightarrow>
                     (entry \<in> set (evictList c) \<and> Key (heap c entry) = key)) \<and>
      (\<forall>entry \<in> set (evictList c). entry < fresh c))"

text \<open>The entry a call of \<^verbatim>\<open>Set\<close> stores.\<close>

definition stored :: "LRUCache \<Rightarrow> string \<Rightarrow> Msg \<Rightarrow> duration \<Rightarrow> instant \<Rightarrow> CacheEntry" where
  "stored c key response ttl now =
     \<lparr>Key = key, Entry_Response = response,
      ExpiresAt = now + (if ttl = 0 then defaultTTL c else ttl)\<rparr>"

text \<open>
  The insertion that ends both \<^verbatim>\<open>Set\<close> (for a new key) and the loop body of
  \<^verbatim>\<open>LoadFromFile\<close>: a new entry at a fresh address, pushed to the front of the list and
  bound to its key in the map.
\<close>

definition push_entry :: "LRUCache \<Rightarrow> CacheEntry \<Rightarrow> LRUCache" where
  "push_entry c e =
     c\<lparr>heap := (heap c)(fresh c := e),
       evictList := PushFront (evictList c) (fresh c),
       items := AList.update (Key e) (fresh c) (items c),
       fresh := Suc (fresh c)\<rparr>"

definition make_room :: "LRUCache \<Rightarrow> LRUCache" where
  "make_room c = (if int (length (evictList c)) \<ge> capacity c then removeOldest c else c)"

text \<open>The cache entry \<^verbatim>\<open>LoadFromFile\<close> builds from a decoded entry.\<close>

definition entry_of :: "SerializableCacheEntry \<Rightarrow> CacheEntry" where
  "entry_of s = \<lparr>Key = SKey s, Entry_Response = SResponse s, ExpiresAt = SExpiresAt s\<rparr>"

text \<open>
  Sequences of cache operations. A restore is given the decoded entries of the file it
  reads.
\<close>

datatype cache_op =
    Op_Get string instant
  | Op_Set string Msg duration instant
  | Op_Delete string
  | Op_Clear
  | Op_Sweep instant
  | Op_Restore "SerializableCacheEntry list" instant

fun apply_op :: "cache_op \<Rightarrow> LRUCache \<Rightarrow> LRUCache" where
  "apply_op (Op_Get key now) c = snd (Get c key now)"
| "apply_op (Op_Set key response ttl now) c = Set c key response ttl now"
| "apply_op (Op_Delete key) c = Delete c key"
| "apply_op Op_Clear c = Clear c"
| "apply_op (Op_Sweep now) c = removeExpired c now"
| "apply_op (Op_Restore entries now) c = LoadFromFile_loop now entries c"

fun is_restore :: "cache_op \<Rightarrow> bool" where
  "is_restore (Op_Restore entries now) = True"
| "is_restore _ = False"

text \<open>
  The invariant of the specification: the size is between 0 and the capacity, the keys of
  the map are the keys of the entries in the recency list, and map and list have the same
  number of entries.
\<close>

definition invariant :: "LRUCache \<Rightarrow> bool" where
  "invariant c =
     (0 \<le> Size c \<and> Size c \<le> capacity c \<and>
      fst ` set (items c) = set (recency c) \<and>
      length (items c) = length (evictList c))"

definition bounded :: "LRUCache \<Rightarrow> bool" where
  "bounded c = (wf c \<and> 0 < capacity c \<and> int (length (evictList c)) \<le> capacity c)"

text \<open>
  \<^verbatim>\<open>encoding/gob\<close> as the program uses it. The sections \<^verbatim>\<open>Answer\<close>, \<^verbatim>\<open>Ns\<close> and \<^verbatim>\<open>Extra\<close> of
  a message are slices of the interface type \<^verbatim>\<open>dns.RR\<close>; gob encodes an interface value
  only when its concrete type has been registered with \<^verbatim>\<open>gob.Register\<close>, and the program
  registers none. So the encoder returns an error as soon as an entry carries a record,
  and writes the entries (empty slices are left out) when none does. This is the
  library's documented behaviour, written down here; the decoder reads back what a
  successful encoding wrote.
\<close>

definition carries_record :: "SerializableCacheEntry \<Rightarrow> bool" where
  "carries_record entry =
     (Answer (SResponse entry) @ Ns (SResponse entry) @ Extra (SResponse entry) \<noteq> [])"

definition unregistered_gob :: "(SerializableCacheEntry list) gob" where
  "unregistered_gob =
     \<lparr>Encode = (\<lambda>entries. if list_ex carries_record entries
                             then Inl ''gob: type not registered for interface''
                             else Inr entries),
      Decode = Inr\<rparr>"

text \<open>
  A cache holding one answer, as the handler stores it: the key of the question
  \<^verbatim>\<open>example.com. A IN\<close> and a response with one A record.
\<close>

definition answer_msg :: Msg where
  "answer_msg = zero_Msg\<lparr>Response := True, Answer := [rr_ttl 300]\<rparr>"

definition cache_rr :: LRUCache where
  "cache_rr = Set (NewLRUCache 10 (300 * Second)) ''example.com.:A:IN'' answer_msg
                (300 * Second) 0"

text \<open>A codec that writes the entries as they are, and example caches.\<close>

definition plain_gob :: "(SerializableCacheEntry list) gob" where
  "plain_gob = \<lparr>Encode = Inr, Decode = Inr\<rparr>"

definition cache_a :: LRUCache where
  "cache_a = Set (NewLRUCache 1 (300 * Second)) ''a'' zero_Msg 0 0"

definition cache_ab :: LRUCache where
  "cache_ab = Set (Set (NewLRUCache 2 (300 * Second)) ''a'' zero_Msg (10 * Second) 0)
                ''b'' zero_Msg (100 * Second) 0"

definition cache_k :: LRUCache where
  "cache_k = Set (NewLRUCache 2 (300 * Second)) ''k'' zero_Msg (60 * Second) 0"

text \<open>
  What every sequence of operations keeps of the map alone, restores included: one
  binding per key, each bound entry carries its key, and its address is in use.
\<close>

definition map_ok :: "LRUCache \<Rightarrow> bool" where
  "map_ok c =
     (distinct (map fst (items c)) \<and>
      list_all (\<lambda>(key, entry). Key (heap c entry) = key \<and> entry < fresh c) (items c))"

section \<open>Upstream forwarder\<close>

text \<open>
  \<^verbatim>\<open>UpstreamResolver.Resolve\<close> is \<open>Upstream_Resolve\<close> below, \<open>Resolve\<close> being the method of
  the local resolver. The attempt counter and \<^verbatim>\<open>retries\<close> are Go ints, modelled as
  integers: the counter stays within \<open>retries + 1\<close>, and the back-off product stays in
  64 bits for every number of retries a run can complete.

  The errors the method returns or records, one constructor per message.
\<close>

datatype upstream_error =
    Ctx_err
  | Exchange_failed string string
  | Server_rcode int
  | All_failed
  | Resolve_failed string int upstream_error

record UpstreamResolver =
  servers :: "string list"
  timeout :: duration
  retries :: int

text \<open>
  The world outside the forwarder. \<open>exchange attempt i server\<close> is the outcome of the
  query sent in round \<open>attempt\<close> to the server at position \<open>i\<close> of the list: a transport
  error or a response. \<open>ctx_done attempt i\<close> says whether the context is found cancelled
  by the check before that query, and \<open>ctx_done_backoff attempt\<close> whether it fires during
  the back-off that follows round \<open>attempt\<close>.
\<close>

record network =
  exchange :: "int \<Rightarrow> nat \<Rightarrow> string \<Rightarrow> string + Msg"
  ctx_done :: "int \<Rightarrow> nat \<Rightarrow> bool"
  ctx_done_backoff :: "int \<Rightarrow> bool"

text \<open>What the forwarder does to the outside world, in order: it queries a server or it sleeps.\<close>

datatype action = Query int nat string | Sleep duration

datatype loop_exit = Return "upstream_error + Msg" | Fallthrough "upstream_error option"

text \<open>The inner loop \<^verbatim>\<open>for _, server := range r.servers\<close> of round \<open>attempt\<close>.\<close>

fun servers_loop ::
  "network \<Rightarrow> int \<Rightarrow> (nat \<times> string) list \<Rightarrow> upstream_error option \<Rightarrow> loop_exit \<times> action list" where
  "servers_loop net attempt [] lastErr = (Fallthrough lastErr, [])"
| "servers_loop net attempt ((i, server) # rest) lastErr =
     (if ctx_done net attempt i then (Return (Inl Ctx_err), [])
      else (case exchange net attempt i server of
              Inl err \<Rightarrow>
                (let (ex, tr) = servers_loop net attempt rest (Some (Exchange_failed server err))
                 in (ex, Query attempt i server # tr))
            | Inr response \<Rightarrow>
                if Rcode response = RcodeSuccess \<or> Rcode response = RcodeNameError
                then (Return (Inr response), [Query attempt i server])
                else (let (ex, tr) = servers_loop net attempt rest
                                       (Some (Server_rcode (Rcode response)))
                      in (ex, Query attempt i server # tr))))"

text \<open>The outer loop \<^verbatim>\<open>for attempt := 0; attempt <= r.retries; attempt++\<close> and what follows it.\<close>

function attempts_loop ::
  "network \<Rightarrow> UpstreamResolver \<Rightarrow> Question \<Rightarrow> int \<Rightarrow> upstream_error option \<Rightarrow>
   (upstream_error + Msg) \<times> action list" where
  "attempts_loop net r question attempt lastErr =
     (if attempt \<le> retries r then
        (case servers_loop net attempt (enumerate 0 (servers r)) lastErr of
           (Return res, tr) \<Rightarrow> (res, tr)
         | (Fallthrough lastErr', tr) \<Rightarrow>
             if attempt < retries r then
               (if ctx_done_backoff net attempt then (Inl Ctx_err, tr)
                else (let (res, tr') = attempts_loop net r question (attempt + 1) lastErr'
                      in (res, tr @ Sleep ((attempt + 1) * 100 * Millisecond) # tr')))
             else (let (res, tr') = attempts_loop net r question (attempt + 1) lastErr'
                   in (res, tr @ tr')))
      else (Inl (Resolve_failed (Name question) (retries r + 1)
                  (case lastErr of None \<Rightarrow> All_failed | Some err \<Rightarrow> err)), []))"
  by pat_completeness auto
termination
  by (relation "measure (\<lambda>(net, r, question, attempt, lastErr). nat (retries r + 1 - attempt))") auto

definition Upstream_Resolve ::
  "network \<Rightarrow> UpstreamResolver \<Rightarrow> Question \<Rightarrow> (upstream_error + Msg) \<times> action list" where
  "Upstream_Resolve net r question = attempts_loop net r question 0 None"

text \<open>
  The vocabulary of the forwarder's contract: an outcome is acceptable when it is a
  response with rcode NOERROR or NXDOMAIN; a round is the list of the queries to all
  servers in order; the back-off after round \<open>attempt\<close> is \<open>(attempt + 1) * 100\<close> ms; the
  error recorded for an outcome that is not acceptable.
\<close>

definition acceptable :: "string + Msg \<Rightarrow> bool" where
  "acceptable out =
     (case out of Inl err \<Rightarrow> False
      | Inr response \<Rightarrow> Rcode response = RcodeSuccess \<or> Rcode response = RcodeNameError)"

definition round :: "UpstreamResolver \<Rightarrow> int \<Rightarrow> action list" where
  "round r attempt = map (\<lambda>(i, server). Query attempt i server) (enumerate 0 (servers r))"

definition backoff :: "int \<Rightarrow> action" where
  "backoff attempt = Sleep ((attempt + 1) * 100 * Millisecond)"

definition recorded :: "string \<Rightarrow> string + Msg \<Rightarrow> upstream_error" where
  "recorded server out =
     (case out of Inl err \<Rightarrow> Exchange_failed server err
      | Inr response \<Rightarrow> Server_rcode (Rcode response))"

definition never_done :: "network \<Rightarrow> bool" where
  "never_done net = ((\<forall>attempt i. \<not> ctx_done net attempt i) \<and> (\<forall>attempt. \<not> ctx_done_backoff net attempt))"

text \<open>
  A round fails when no server gives an acceptable outcome in it. \<open>failed_trace\<close> is
  what the forwarder does from round \<open>a\<close> on when every round fails: each round in full,
  with the back-off after every round but the last. \<open>final_error\<close> is the error recorded
  last when the rounds from \<open>a\<close> on all fail, starting from the recorded error \<open>lastErr\<close>
  (\<open>None\<close> is nil), or the synthesized one if none was recorded.
\<close>

definition round_fails :: "network \<Rightarrow> UpstreamResolver \<Rightarrow> int \<Rightarrow> bool" where
  "round_fails net r attempt =
     list_all (\<lambda>(i, server). \<not> acceptable (exchange net attempt i server))
       (enumerate 0 (servers r))"

definition failed_trace :: "UpstreamResolver \<Rightarrow> int \<Rightarrow> action list" where
  "failed_trace r a =
     concat (map (\<lambda>attempt. round r attempt @
                    (if attempt < retries r then [backoff attempt] else []))
               [a..retries r])"

definition final_error ::
  "network \<Rightarrow> UpstreamResolver \<Rightarrow> int \<Rightarrow> upstream_error option \<Rightarrow> upstream_error" where
  "final_error net r a lastErr =
     (case (if servers r = [] \<or> retries r < a then lastErr
            else Some (recorded (last (servers r))
                   (exchange net (retries r) (length (servers r) - 1) (last (servers r))))) of
        None \<Rightarrow> All_failed
      | Some err \<Rightarrow> err)"

text \<open>
  Examples: two servers and one retry; a network whose first round fails (a timeout, then
  SERVFAIL) and whose second round answers NXDOMAIN, and one on which every query fails.
\<close>

definition example_resolver :: UpstreamResolver where
  "example_resolver =
     \<lparr>servers = [''10.0.0.1:53'', ''10.0.0.2:53''], timeout = 2 * Second, retries = 1\<rparr>"

definition reply :: "int \<Rightarrow> Msg" where
  "reply rc = zero_Msg\<lparr>Response := True, Rcode := rc\<rparr>"

definition flaky_net :: network where
  "flaky_net =
     \<lparr>exchange = (\<lambda>attempt i server.
         if attempt = 0 then (if i = 0 then Inl ''i/o timeout'' else Inr (reply RcodeServerFailure))
         else Inr (reply RcodeNameError)),
      ctx_done = (\<lambda>attempt i. False),
      ctx_done_backoff = (\<lambda>attempt. False)\<rparr>"

definition dead_net :: network where
  "dead_net =
     \<lparr>exchange = (\<lambda>attempt i server.
         if i = 0 then Inl ''i/o timeout'' else Inr (reply RcodeServerFailure)),
      ctx_done = (\<lambda>attempt i. False),
      ctx_done_backoff = (\<lambda>attempt. False)\<rparr>"

section \<open>Request handler\<close>

definition isSupportedType :: "u16 \<Rightarrow> bool" where
  "isSupportedType qtype =
     (if qtype = TypeA \<or> qtype = TypeAAAA \<or> qtype = TypeCNAME \<or> qtype = TypeMX \<or>
         qtype = TypeTXT \<or> qtype = TypeNS \<or> qtype = TypeSOA \<or> qtype = TypePTR \<or>
         qtype = TypeHTTPS \<or> qtype = TypeCAA \<or> qtype = TypeSRV \<or> qtype = TypeSVCB \<or>
         qtype = TypeDS \<or> qtype = TypeDNSKEY \<or> qtype = TypeURI \<or> qtype = TypeNAPTR \<or>
         qtype = TypeSSHFP \<or> qtype = TypeTLSA \<or> qtype = TypeSMIMEA \<or> qtype = TypeCERT
      then True else False)"

text \<open>
  The handler's collaborators: the cache (its state), the records of the local resolver,
  and the upstream resolver behind its interface, a function from the question to the
  result of the call.
\<close>

record Handler =
  cache :: LRUCache
  localResolver :: RecordsConfig
  resolver :: "Question \<Rightarrow> upstream_error + Msg"

text \<open>The skeleton reply \<^verbatim>\<open>response\<close> that \<^verbatim>\<open>ServeDNS\<close> builds before it looks at the query.\<close>

definition skeleton :: "Msg \<Rightarrow> Msg" where
  "skeleton r = (SetReply zero_Msg r)\<lparr>Authoritative := False, RecursionAvailable := True\<rparr>"

text \<open>
  \<^verbatim>\<open>ServeDNS\<close>: the message written to the client and the cache after the call. \<open>now\<close>
  is the instant of the cache lookup, \<open>later\<close> that of the write-back. The result is
  \<open>None\<close> when the local resolver runs out of fuel.
\<close>

definition ServeDNS ::
  "nat \<Rightarrow> netlib \<Rightarrow> mnemonics \<Rightarrow> Handler \<Rightarrow> Msg \<Rightarrow> instant \<Rightarrow> instant \<Rightarrow> (Msg \<times> LRUCache) option" where
  "ServeDNS fuel net names h r now later =
     (let response = skeleton r
      in (case Question r of
            [] \<Rightarrow> Some (response\<lparr>Rcode := RcodeFormatError\<rparr>, cache h)
          | question # _ \<Rightarrow>
              if \<not> isSupportedType (Qtype question)
              then Some (response\<lparr>Rcode := RcodeNotImplemented\<rparr>, cache h)
              else
                (let cacheKey = GenerateCacheKey names question
                 in (case Get (cache h) cacheKey now of
                       (Some cachedResponse, c1) \<Rightarrow> Some (cachedResponse\<lparr>Id := Id r\<rparr>, c1)
                     | (None, c1) \<Rightarrow>
                         (case Resolve fuel net (localResolver h) question of
                            None \<Rightarrow> None
                          | Some (Some localResponse0) \<Rightarrow>
                              (let localResponse = localResponse0\<lparr>Id := Id r\<rparr>;
                                   ttl = extractTTL localResponse
                               in Some (localResponse,
                                        if ttl > 0 then Set c1 cacheKey localResponse ttl later
                                        else c1))
                          | Some None \<Rightarrow>
                              (case resolver h question of
                                 Inl err \<Rightarrow> Some (response\<lparr>Rcode := RcodeServerFailure\<rparr>, c1)
                               | Inr upstreamResponse0 \<Rightarrow>
                                   (let upstreamResponse = upstreamResponse0\<lparr>Id := Id r\<rparr>;
                                        ttl = extractTTL upstreamResponse
                                    in Some (upstreamResponse,
                                             if ttl > 0
                                             then Set c1 cacheKey upstreamResponse ttl later
                                             else c1))))))))"

text \<open>The supported set of the specification, as a set of type codes.\<close>

definition supported_types :: "u16 set" where
  "supported_types =
     {TypeA, TypeAAAA, TypeCNAME, TypeMX, TypeTXT, TypeNS, TypeSOA, TypePTR, TypeHTTPS,
      TypeCAA, TypeSRV, TypeSVCB, TypeDS, TypeDNSKEY, TypeURI, TypeNAPTR, TypeSSHFP,
      TypeTLSA, TypeSMIMEA, TypeCERT}"

text \<open>
  The first wildcard candidate of a question, the question \<^verbatim>\<open>resolveWildcard\<close> asks for
  it, and the response it returns when that candidate has a record.
\<close>

definition first_wildcard :: "Question \<Rightarrow> string" where
  "first_wildcard q = ''*.'' @ Join_dot (drop 1 (Split_dot (ToLower (TrimSuffix_dot (Name q)))))"

definition wildcard_question :: "Question \<Rightarrow> Question" where
  "wildcard_question q = \<lparr>Name = first_wildcard q @ ''.'', Qtype = Qtype q, Qclass = Qclass q\<rparr>"

definition wildcard_response :: "Question \<Rightarrow> RR \<Rightarrow> Msg" where
  "wildcard_response q rr =
     (reply_skeleton (wildcard_question q))
       \<lparr>Answer := [rr\<lparr>Hdr := (Hdr rr)\<lparr>Hdr_Name := Name q\<rparr>\<rparr>], Rcode := RcodeSuccess\<rparr>"

text \<open>A string that \<^verbatim>\<open>strings.ToLower\<close> leaves as it is.\<close>

definition is_lower :: "string \<Rightarrow> bool" where
  "is_lower s = (\<forall>c \<in> set s. lower_char c = c)"

text \<open>Examples: the mnemonics of type A and class IN, a handler, and the query with given questions.\<close>

definition example_names :: mnemonics where
  "example_names =
     \<lparr>TypeToString = (\<lambda>t. if t = 1 then ''A'' else []),
      ClassToString = (\<lambda>c. if c = 1 then ''IN'' else [])\<rparr>"

definition example_handler :: Handler where
  "example_handler =
     \<lparr>cache = NewLRUCache 10 (300 * Second), localResolver = example_records,
      resolver = (\<lambda>question. Inl (Resolve_failed (Name question) 4 All_failed))\<rparr>"

definition query :: "Question list \<Rightarrow> Msg" where
  "query qs = zero_Msg\<lparr>Id := 7, RecursionDesired := True, Question := qs\<rparr>"

section \<open>Configuration loading\<close>

record ServerConfig =
  Port :: int
  BindAddress :: string
  ReadTimeout :: duration
  WriteTimeout :: duration

record CacheConfig =
  MaxEntries :: int
  DefaultTTL :: duration
  CleanupInterval :: duration

record UpstreamConfig =
  Servers :: "string list"
  Timeout :: duration
  Retries :: int

record LoggingConfig =
  Level :: string
  Format :: string

record Config =
  Server :: ServerConfig
  Cache :: CacheConfig
  Upstream :: UpstreamConfig
  Logging :: LoggingConfig
  Records :: RecordsConfig

text \<open>The zero value \<^verbatim>\<open>&Config{}\<close> the decoder fills in: what every omitted option keeps.\<close>

definition zero_Config :: Config where
  "zero_Config =
     \<lparr>Server = \<lparr>Port = 0, BindAddress = [], ReadTimeout = 0, WriteTimeout = 0\<rparr>,
      Cache = \<lparr>MaxEntries = 0, DefaultTTL = 0, CleanupInterval = 0\<rparr>,
      Upstream = \<lparr>Servers = [], Timeout = 0, Retries = 0\<rparr>,
      Logging = \<lparr>Level = [], Format = []\<rparr>,
      Records = no_records\<rparr>"

definition defaultConfig :: Config where
  "defaultConfig =
     \<lparr>Server = \<lparr>Port = 53, BindAddress = ''0.0.0.0'', ReadTimeout = 5 * Second,
                WriteTimeout = 5 * Second\<rparr>,
      Cache = \<lparr>MaxEntries = 10000, DefaultTTL = 300 * Second, CleanupInterval = 60 * Second\<rparr>,
      Upstream = \<lparr>Servers = [''8.8.8.8:53'', ''1.1.1.1:53''], Timeout = 2 * Second, Retries = 3\<rparr>,
      Logging = \<lparr>Level = ''info'', Format = ''json''\<rparr>,
      Records = no_records\<rparr>"

datatype config_error =
    Decode_failed string string
  | Invalid_server_port int
  | Invalid_max_entries int
  | No_upstream_server
  | Invalid_retries int
  | Invalid_A_domain string
  | Invalid_A_IP string string
  | Invalid_AAAA_domain string
  | Invalid_AAAA_IP string string
  | Invalid_CNAME_domain string
  | Invalid_CNAME_target string string
  | Invalid_MX_domain string
  | Invalid_MX_target string string
  | Invalid_MX_priority string int
  | Invalid_records config_error
  | Invalid_configuration config_error

definition isValidDomain :: "string \<Rightarrow> bool" where
  "isValidDomain domain0 =
     (if length domain0 = 0 \<or> length domain0 > 253 then False
      else (let domain = (if \<not> HasSuffix_dot domain0 then domain0 @ ''.'' else domain0)
            in \<not> list_ex (\<lambda>part. length part = 0 \<or> length part > 63)
                   (Split_dot (TrimSuffix_dot domain))))"

text \<open>The four loops of \<^verbatim>\<open>validateRecords\<close>, each over one table in the order of its list.\<close>

fun validate_A :: "netlib \<Rightarrow> (string \<times> string) list \<Rightarrow> config_error option" where
  "validate_A net [] = None"
| "validate_A net ((domain, ip) # rest) =
     (if \<not> isValidDomain domain then Some (Invalid_A_domain domain)
      else if ParseIP net ip = None then Some (Invalid_A_IP domain ip)
      else validate_A net rest)"

fun validate_AAAA :: "netlib \<Rightarrow> (string \<times> string) list \<Rightarrow> config_error option" where
  "validate_AAAA net [] = None"
| "validate_AAAA net ((domain, ip) # rest) =
     (if \<not> isValidDomain domain then Some (Invalid_AAAA_domain domain)
      else if ParseIP net ip = None then Some (Invalid_AAAA_IP domain ip)
      else validate_AAAA net rest)"

fun validate_CNAME :: "(string \<times> string) list \<Rightarrow> config_error option" where
  "validate_CNAME [] = None"
| "validate_CNAME ((domain, target) # rest) =
     (if \<not> isValidDomain domain then Some (Invalid_CNAME_domain domain)
      else if \<not> isValidDomain target then Some (Invalid_CNAME_target domain target)
      else validate_CNAME rest)"

fun validate_MX :: "(string \<times> MXRecord) list \<Rightarrow> config_error option" where
  "validate_MX [] = None"
| "validate_MX ((domain, mx) # rest) =
     (if \<not> isValidDomain domain then Some (Invalid_MX_domain domain)
      else if \<not> isValidDomain (MX_Target mx) then Some (Invalid_MX_target domain (MX_Target mx))
      else if MX_Priority mx < 0 \<or> MX_Priority mx > 65535
        then Some (Invalid_MX_priority domain (MX_Priority mx))
      else validate_MX rest)"

definition validateRecords :: "netlib \<Rightarrow> Config \<Rightarrow> config_error option" where
  "validateRecords net config =
     (case validate_A net (records_A (Records config)) of
        Some err \<Rightarrow> Some err
      | None \<Rightarrow>
     (case validate_AAAA net (records_AAAA (Records config)) of
        Some err \<Rightarrow> Some err
      | None \<Rightarrow>
     (case validate_CNAME (records_CNAME (Records config)) of
        Some err \<Rightarrow> Some err
      | None \<Rightarrow> validate_MX (records_MX (Records config)))))"

definition validate :: "netlib \<Rightarrow> Config \<Rightarrow> config_error option" where
  "validate net config =
     (if Port (Server config) < 1 \<or> Port (Server config) > 65535
        then Some (Invalid_server_port (Port (Server config)))
      else if MaxEntries (Cache config) < 1
        then Some (Invalid_max_entries (MaxEntries (Cache config)))
      else if length (Servers (Upstream config)) = 0 then Some No_upstream_server
      else if Retries (Upstream config) < 0
        then Some (Invalid_retries (Retries (Upstream config)))
      else (case validateRecords net config of
              Some err \<Rightarrow> Some (Invalid_records err)
            | None \<Rightarrow> None))"

text \<open>\<^verbatim>\<open>setDefaults\<close>. The five nil-map tests have no counterpart: a nil map is the empty list.\<close>

definition setDefaults :: "Config \<Rightarrow> Config" where
  "setDefaults config =
     (let s = Server config;
          s = (if Port s = 0 then s\<lparr>Port := 53\<rparr> else s);
          s = (if BindAddress s = [] then s\<lparr>BindAddress := ''0.0.0.0''\<rparr> else s);
          s = (if ReadTimeout s = 0 then s\<lparr>ReadTimeout := 5 * Second\<rparr> else s);
          s = (if WriteTimeout s = 0 then s\<lparr>WriteTimeout := 5 * Second\<rparr> else s);
          c = Cache config;
          c = (if MaxEntries c = 0 then c\<lparr>MaxEntries := 10000\<rparr> else c);
          c = (if DefaultTTL c = 0 then c\<lparr>DefaultTTL := 300 * Second\<rparr> else c);
          c = (if CleanupInterval c = 0 then c\<lparr>CleanupInterval := 60 * Second\<rparr> else c);
          u = Upstream config;
          u = (if length (Servers u) = 0 then u\<lparr>Servers := [''8.8.8.8:53'', ''1.1.1.1:53'']\<rparr> else u);
          u = (if Timeout u = 0 then u\<lparr>Timeout := 2 * Second\<rparr> else u);
          u = (if Retries u = 0 then u\<lparr>Retries := 3\<rparr> else u);
          l = Logging config;
          l = (if Level l = [] then l\<lparr>Level := ''info''\<rparr> else l);
          l = (if Format l = [] then l\<lparr>Format := ''json''\<rparr> else l)
      in config\<lparr>Server := s, Cache := c, Upstream := u, Logging := l\<rparr>)"

text \<open>
  The configuration file as \<^verbatim>\<open>Load\<close> meets it: absent (\<^verbatim>\<open>os.Stat\<close> reports that it does
  not exist), rejected by the TOML decoder with an error, or decoded into the zero
  \<^verbatim>\<open>Config\<close>, where every option the file omits keeps its zero value.
\<close>

datatype config_file = Missing | Malformed string | Decoded Config

definition Load :: "netlib \<Rightarrow> string \<Rightarrow> config_file \<Rightarrow> config_error + Config" where
  "Load net path file =
     (case file of
        Missing \<Rightarrow> Inr defaultConfig
      | Malformed err \<Rightarrow> Inl (Decode_failed path err)
      | Decoded config \<Rightarrow>
          (case validate net config of
             Some err \<Rightarrow> Inl (Invalid_configuration err)
           | None \<Rightarrow> Inr (setDefaults config)))"

text \<open>
  A well-formed file that sets every option named in the defaults except \<^verbatim>\<open>server.port\<close>:
  \<^verbatim>\<open>[cache] max_entries = 500\<close>, \<^verbatim>\<open>[upstream] servers = ["9.9.9.9:53"]\<close>,
  \<^verbatim>\<open>retries = 1\<close>.
\<close>

definition port_omitted :: Config where
  "port_omitted =
     zero_Config\<lparr>Cache := (Cache zero_Config)\<lparr>MaxEntries := 500\<rparr>,
                 Upstream := (Upstream zero_Config)\<lparr>Servers := [''9.9.9.9:53''], Retries := 1\<rparr>\<rparr>"

section \<open>Properties\<close>

subsection \<open>TTL extraction\<close>

lemma minTTL_loop_uint:
  "uint (minTTL_loop m rrs) = fold (\<lambda>rr acc. min (uint (Ttl (Hdr rr))) acc) rrs (uint m)"
  by (induction rrs arbitrary: m) (auto simp: word_less_def min_def)

lemma fold_min_Min:
  "fold (\<lambda>rr acc. min (f rr) acc) rrs (a::int) = Min (insert a (f ` set rrs))"
proof (induction rrs arbitrary: a)
  case Nil
  then show ?case by simp
next
  case (Cons r rrs)
  have "Min (insert (min (f r) a) (f ` set rrs)) = Min (insert a (insert (f r) (f ` set rrs)))"
  proof (cases "set rrs = {}")
    case True
    then show ?thesis by (simp add: min.commute)
  next
    case False
    then have "Min (insert (min (f r) a) (f ` set rrs)) = min (min (f r) a) (Min (f ` set rrs))"
      by simp
    moreover have "Min (insert a (insert (f r) (f ` set rrs))) = min a (min (f r) (Min (f ` set rrs)))"
      using False by simp
    ultimately show ?thesis by (simp add: min.assoc min.commute min.left_commute)
  qed
  with Cons show ?case by simp
qed

text \<open>
  C1 (as the code has it). The TTL used to cache a response is 300 seconds when the answer
  section is empty; otherwise it is the minimum TTL across the answer RRs, capped at 3600
  seconds (the initial value of the running minimum) and clamped to a lower bound of 60
  seconds. A common TTL T of all answer RRs is returned unchanged only for
  \<open>60 \<le> T \<le> 3600\<close>.
\<close>

theorem extractTTL_capped:
  "extractTTL msg =
     (if Answer msg = [] then 300 * Second
      else max 60 (min 3600 (Min ((\<lambda>rr. uint (Ttl (Hdr rr))) ` set (Answer msg)))) * Second)"
proof (cases "Answer msg = []")
  case True
  then show ?thesis by (simp add: extractTTL_def)
next
  case False
  let ?S = "(\<lambda>rr. uint (Ttl (Hdr rr))) ` set (Answer msg)"
  have ne: "?S \<noteq> {}" and fin: "finite ?S" using False by auto
  have "uint (minTTL_loop 3600 (Answer msg)) = Min (insert 3600 ?S)"
    by (simp add: minTTL_loop_uint fold_min_Min)
  also have "\<dots> = min 3600 (Min ?S)"
    using ne fin by simp
  finally have m: "uint (minTTL_loop 3600 (Answer msg)) = min 3600 (Min ?S)" .
  have clamp: "uint (if w < 60 then 60 else w) = max 60 (uint w)" for w :: u32
    by (simp add: word_less_def max_def)
  have "extractTTL msg = uint (if minTTL_loop 3600 (Answer msg) < 60 then 60
          else minTTL_loop 3600 (Answer msg)) * Second"
    using False by (simp add: extractTTL_def Let_def)
  then show ?thesis
    using False by (simp only: clamp m if_False)
qed

theorem extractTTL_capped_witness:
  "extractTTL (zero_Msg\<lparr>Answer := [rr_ttl 45, rr_ttl 7200]\<rparr>) = 60 * Second"
  using extractTTL_capped [of "zero_Msg\<lparr>Answer := [rr_ttl 45, rr_ttl 7200]\<rparr>"]
  by (simp add: rr_ttl_def)

text \<open>
  C1 as stated fails: a single answer RR with TTL 7200 is cached for 3600 seconds, not for
  7200 seconds.
\<close>

theorem extractTTL_uncapped_counterexample:
  "extractTTL (zero_Msg\<lparr>Answer := [rr_ttl 7200]\<rparr>) = 3600 * Second \<and>
   extractTTL (zero_Msg\<lparr>Answer := [rr_ttl 7200]\<rparr>) \<noteq> max 60 7200 * Second"
  by (simp add: extractTTL_def rr_ttl_def zero_Msg_def Second_def word_less_def)

subsection \<open>Local resolver\<close>

lemma TrimSuffix_dot_append [simp]: "TrimSuffix_dot (s @ ''.'') = s"
  by (simp add: TrimSuffix_dot_def)

lemma lower_char_idem [simp]: "lower_char (lower_char c) = lower_char c"
proof (cases "65 \<le> (of_char c :: nat) \<and> (of_char c :: nat) \<le> 90")
  case True
  then have "(of_char (char_of ((of_char c :: nat) + 32)) :: nat) = of_char c + 32"
    by simp
  then show ?thesis using True by (simp add: lower_char_def)
next
  case False
  then have "lower_char c = c" unfolding lower_char_def by (simp only: if_False)
  then show ?thesis by simp
qed

lemma lower_char_dot [simp]: "lower_char CHR ''.'' = CHR ''.''" "lower_char CHR ''*'' = CHR ''*''"
  by (simp_all add: lower_char_def)

lemma is_lower_ToLower [simp]: "is_lower (ToLower s)"
  by (simp add: is_lower_def ToLower_def)

lemma ToLower_id: "is_lower s \<Longrightarrow> ToLower s = s"
  by (simp add: is_lower_def ToLower_def map_idI)

lemma Split_dot_nonempty [simp]: "Split_dot s \<noteq> []"
  by (induction s) auto

lemma Split_dot_chars: "p \<in> set (Split_dot s) \<Longrightarrow> set p \<subseteq> set s"
proof (induction s arbitrary: p)
  case Nil
  then show ?case by simp
next
  case (Cons c cs)
  obtain h t where ht: "Split_dot cs = h # t" by (cases "Split_dot cs") auto
  show ?case
  proof (cases "c = CHR ''.''")
    case True
    then show ?thesis using Cons by auto
  next
    case False
    then have "p = c # h \<or> p \<in> set t" using Cons.prems ht by simp
    moreover have "set h \<subseteq> set cs" using Cons.IH [of h] ht by simp
    moreover have "p \<in> set t \<Longrightarrow> set p \<subseteq> set cs" using Cons.IH [of p] ht by simp
    ultimately show ?thesis by auto
  qed
qed

lemma Join_dot_chars: "set (Join_dot ps) \<subseteq> insert CHR ''.'' (\<Union>(set ` set ps))"
  by (induction ps rule: Join_dot.induct) auto

lemma is_lower_wildcard:
  assumes "is_lower s"
  shows "is_lower (''*.'' @ Join_dot (drop n (Split_dot s)))"
proof -
  have "c \<in> set (Join_dot (drop n (Split_dot s))) \<Longrightarrow> lower_char c = c" for c
  proof -
    assume "c \<in> set (Join_dot (drop n (Split_dot s)))"
    then have "c = CHR ''.'' \<or> (\<exists>p \<in> set (drop n (Split_dot s)). c \<in> set p)"
      using Join_dot_chars [of "drop n (Split_dot s)"] by auto
    then show ?thesis
    proof
      assume "c = CHR ''.''" then show ?thesis by simp
    next
      assume "\<exists>p \<in> set (drop n (Split_dot s)). c \<in> set p"
      then obtain p where "p \<in> set (Split_dot s)" "c \<in> set p"
        by (meson in_set_dropD)
      then have "c \<in> set s" using Split_dot_chars by blast
      then show ?thesis using assms by (simp add: is_lower_def)
    qed
  qed
  then show ?thesis by (auto simp: is_lower_def)
qed

lemma wildcards_Cons:
  "wildcards (Split_dot s) =
     (''*.'' @ Join_dot (drop 1 (Split_dot s))) #
       map (\<lambda>i. ''*.'' @ Join_dot (drop (i + 1) (Split_dot s))) [1..<length (Split_dot s)]"
proof -
  have "0 < length (Split_dot s)" by simp
  then have "[0..<length (Split_dot s)] = 0 # [1..<length (Split_dot s)]"
    by (simp add: upt_rec)
  then show ?thesis by (simp add: wildcards_def)
qed

lemma Resolve_hit:
  "exact_record net records (ToLower (TrimSuffix_dot (Name q))) q = Some rr \<Longrightarrow>
   Resolve (Suc fuel) net records q =
     Some (Some ((reply_skeleton q)\<lparr>Answer := Answer (reply_skeleton q) @ [rr], Rcode := RcodeSuccess\<rparr>))"
  by (simp add: Let_def)

lemma Resolve_wild:
  "exact_record net records (ToLower (TrimSuffix_dot (Name q))) q = None \<Longrightarrow>
   hasWildcardMatch records (ToLower (TrimSuffix_dot (Name q))) (Qtype q) \<Longrightarrow>
   Resolve (Suc fuel) net records q =
     resolveWildcard (Resolve fuel net records) (ToLower (TrimSuffix_dot (Name q))) q"
  by (simp add: Let_def)

lemma exact_record_exists:
  assumes "exact_record net records domain q = Some rr"
    and "Qtype q = TypeA \<or> Qtype q = TypeAAAA \<or> Qtype q = TypeCNAME \<or> Qtype q = TypeMX \<or>
         Qtype q = TypeTXT"
  shows "wildcard_exists records (Qtype q) domain"
proof -
  have ne: "TypeA \<noteq> TypeAAAA" "TypeA \<noteq> TypeCNAME" "TypeA \<noteq> TypeMX" "TypeA \<noteq> TypeTXT"
    "TypeAAAA \<noteq> TypeCNAME" "TypeAAAA \<noteq> TypeMX" "TypeAAAA \<noteq> TypeTXT"
    "TypeCNAME \<noteq> TypeMX" "TypeCNAME \<noteq> TypeTXT" "TypeMX \<noteq> TypeTXT"
    by (simp_all add: TypeA_def TypeAAAA_def TypeCNAME_def TypeMX_def TypeTXT_def)
  from assms(2) show ?thesis
  proof (elim disjE)
    assume t: "Qtype q = TypeA"
    then show ?thesis using assms(1)
      by (auto simp: exact_record_def wildcard_exists_def split: option.splits)
  next
    assume t: "Qtype q = TypeAAAA"
    then show ?thesis using assms(1) ne
      by (auto simp: exact_record_def wildcard_exists_def split: option.splits)
  next
    assume t: "Qtype q = TypeCNAME"
    then show ?thesis using assms(1) ne
      by (auto simp: exact_record_def wildcard_exists_def split: option.splits)
  next
    assume t: "Qtype q = TypeMX"
    then show ?thesis using assms(1) ne
      by (auto simp: exact_record_def wildcard_exists_def split: option.splits)
  next
    assume t: "Qtype q = TypeTXT"
    then show ?thesis using assms(1) ne
      by (auto simp: exact_record_def wildcard_exists_def split: option.splits)
  qed
qed

lemma reply_skeleton_sel [simp]:
  "Question (reply_skeleton q) = [q]" "Answer (reply_skeleton q) = []"
  "Authoritative (reply_skeleton q)" "\<not> RecursionAvailable (reply_skeleton q)"
  "Rcode (reply_skeleton q) = RcodeSuccess"
  by (simp_all add: reply_skeleton_def SetReply_def zero_Msg_def Let_def OpcodeQuery_def)

lemma wildcard_domain:
  "ToLower (TrimSuffix_dot (Name (wildcard_question q))) = first_wildcard q"
proof -
  have "is_lower (first_wildcard q)"
    unfolding first_wildcard_def by (rule is_lower_wildcard) simp
  then show ?thesis by (simp add: wildcard_question_def ToLower_id)
qed

lemma Resolve_first_wildcard:
  assumes five: "Qtype q = TypeA \<or> Qtype q = TypeAAAA \<or> Qtype q = TypeCNAME \<or>
                 Qtype q = TypeMX \<or> Qtype q = TypeTXT"
    and miss: "exact_record net records (ToLower (TrimSuffix_dot (Name q))) q = None"
    and hit: "exact_record net records (first_wildcard q) (wildcard_question q) = Some rr"
  shows "Resolve (Suc (Suc fuel)) net records q = Some (Some (wildcard_response q rr))"
proof -
  let ?d = "ToLower (TrimSuffix_dot (Name q))"
  let ?wq = "wildcard_question q"
  have qt: "Qtype ?wq = Qtype q" by (simp add: wildcard_question_def)
  have ex: "wildcard_exists records (Qtype q) (first_wildcard q)"
    using exact_record_exists [OF hit] five qt by simp
  have w: "wildcards (Split_dot ?d) = first_wildcard q #
             map (\<lambda>i. ''*.'' @ Join_dot (drop (i + 1) (Split_dot ?d))) [1..<length (Split_dot ?d)]"
    unfolding first_wildcard_def by (rule wildcards_Cons)
  have h: "hasWildcardMatch records ?d (Qtype q)"
    unfolding hasWildcardMatch_def w using ex by simp
  have inner: "Resolve (Suc fuel) net records ?wq =
      Some (Some ((reply_skeleton ?wq)\<lparr>Answer := Answer (reply_skeleton ?wq) @ [rr], Rcode := RcodeSuccess\<rparr>))"
    using Resolve_hit [of net records ?wq rr fuel] hit by (simp only: wildcard_domain)
  have "Resolve (Suc (Suc fuel)) net records q =
          resolveWildcard (Resolve (Suc fuel) net records) ?d q"
    using Resolve_wild [OF miss h] .
  also have "\<dots> = Some (Some (wildcard_response q rr))"
    unfolding resolveWildcard_def w resolveWildcard_loop.simps
    using inner by (simp add: wildcard_question_def wildcard_response_def)
  finally show ?thesis .
qed

lemma wildcard_name_differs:
  assumes miss: "exact_record net records (ToLower (TrimSuffix_dot (Name q))) q = None"
    and hit: "exact_record net records (first_wildcard q) (wildcard_question q) = Some rr"
  shows "Name (wildcard_question q) \<noteq> Name q"
proof
  assume eq: "Name (wildcard_question q) = Name q"
  then have "wildcard_question q = q" by (simp add: wildcard_question_def)
  moreover have "ToLower (TrimSuffix_dot (Name q)) = first_wildcard q"
    using wildcard_domain [of q] eq by simp
  ultimately show False using miss hit by simp
qed

lemma question_A_sel [simp]:
  "Name (question_A n) = n" "Qtype (question_A n) = TypeA" "Qclass (question_A n) = ClassINET"
  by (simp_all add: question_A_def)

lemma Split_dot_no_dots: "p \<in> set (Split_dot s) \<Longrightarrow> CHR ''.'' \<notin> set p"
proof (induction s arbitrary: p)
  case Nil
  then show ?case by simp
next
  case (Cons c cs)
  obtain h t where ht: "Split_dot cs = h # t" by (cases "Split_dot cs") auto
  have h: "CHR ''.'' \<notin> set h" using Cons.IH [of h] ht by simp
  have t: "p \<in> set t \<Longrightarrow> CHR ''.'' \<notin> set p" using Cons.IH [of p] ht by simp
  show ?case
  proof (cases "c = CHR ''.''")
    case True
    then show ?thesis using Cons ht by auto
  next
    case False
    then have "p = c # h \<or> p \<in> set t" using Cons.prems ht by simp
    then show ?thesis using False h t by auto
  qed
qed

lemma Join_Split: "Join_dot (Split_dot s) = s"
proof (induction s)
  case Nil
  then show ?case by simp
next
  case (Cons c cs)
  obtain h t where ht: "Split_dot cs = h # t" by (cases "Split_dot cs") auto
  have j: "Join_dot (h # t) = cs" using Cons ht by simp
  show ?case
  proof (cases "c = CHR ''.''")
    case True
    then show ?thesis using ht j by simp
  next
    case False
    have "Join_dot ((c # h) # t) = c # Join_dot (h # t)" by (cases t) simp_all
    then show ?thesis using False ht j by simp
  qed
qed

lemma Split_dot_plain: "CHR ''.'' \<notin> set p \<Longrightarrow> Split_dot p = [p]"
  by (induction p) auto

lemma Split_dot_append:
  "CHR ''.'' \<notin> set p \<Longrightarrow> Split_dot (p @ CHR ''.'' # rest) = p # Split_dot rest"
  by (induction p) auto

lemma Split_Join:
  "ps \<noteq> [] \<Longrightarrow> \<forall>p \<in> set ps. CHR ''.'' \<notin> set p \<Longrightarrow> Split_dot (Join_dot ps) = ps"
proof (induction ps rule: Join_dot.induct)
  case 1
  then show ?case by simp
next
  case (2 p)
  then show ?case by (simp add: Split_dot_plain)
next
  case (3 p q ps)
  then show ?case by (simp add: Split_dot_append)
qed

lemma Split_dot_star: "Split_dot (''*.'' @ s) = ''*'' # Split_dot s"
  by simp

lemma hasWildcardMatch_loop_iff:
  "hasWildcardMatch_loop records t ws \<longleftrightarrow> (\<exists>w \<in> set ws. wildcard_exists records t w)"
  by (induction ws) auto

lemma wildcards_drop1:
  "ps \<noteq> [] \<Longrightarrow>
   wildcards ps = map (\<lambda>i. ''*.'' @ Join_dot (drop i (drop 1 ps))) [0..<length ps]"
  by (simp add: wildcards_def)

lemma wildcards_star:
  "wildcards (''*'' # ps) = map (\<lambda>i. ''*.'' @ Join_dot (drop i ps)) [0..<Suc (length ps)]"
  by (simp add: wildcards_def del: upt_Suc)

lemma first_wildcard_Split:
  "Split_dot (first_wildcard q) =
     ''*'' # Split_dot (Join_dot (drop 1 (Split_dot (ToLower (TrimSuffix_dot (Name q))))))"
  unfolding first_wildcard_def by (rule Split_dot_star)

lemma first_wildcard_fix: "first_wildcard (wildcard_question q) = first_wildcard q"
proof -
  have "first_wildcard (wildcard_question q) =
          ''*.'' @ Join_dot (drop 1 (Split_dot (first_wildcard q)))"
    by (simp only: first_wildcard_def [of "wildcard_question q"] wildcard_domain)
  also have "\<dots> = first_wildcard q"
    by (simp add: first_wildcard_Split Join_Split) (simp add: first_wildcard_def)
  finally show ?thesis .
qed

lemma wildcard_question_fix: "wildcard_question (wildcard_question q) = wildcard_question q"
  by (simp add: wildcard_question_def [of "wildcard_question q"] first_wildcard_fix)
     (simp add: wildcard_question_def)

lemma wildcards_subset:
  "set (wildcards (Split_dot (ToLower (TrimSuffix_dot (Name q))))) \<subseteq>
   set (wildcards (Split_dot (first_wildcard q)))"
proof -
  let ?parts = "Split_dot (ToLower (TrimSuffix_dot (Name q)))"
  let ?ps = "drop 1 ?parts"
  have ne: "?parts \<noteq> []" by simp
  have len: "length ?parts = Suc (length ?ps)" using ne by (cases ?parts) simp_all
  have w: "wildcards ?parts = map (\<lambda>i. ''*.'' @ Join_dot (drop i ?ps)) [0..<Suc (length ?ps)]"
    using wildcards_drop1 [OF ne] by (simp only: len)
  show ?thesis
  proof (cases "?ps = []")
    case True
    have "wildcards ?parts = [''*.'']" unfolding w using True by simp
    moreover have "wildcards (Split_dot (first_wildcard q)) = [''*.'', ''*.'']"
      unfolding first_wildcard_Split wildcards_star using True by (simp add: upt_rec)
    ultimately show ?thesis by simp
  next
    case False
    have "\<forall>p \<in> set ?ps. CHR ''.'' \<notin> set p"
      by (meson Split_dot_no_dots in_set_dropD)
    then have "Split_dot (Join_dot ?ps) = ?ps" using False by (rule Split_Join [rotated])
    then have "wildcards (Split_dot (first_wildcard q)) = wildcards ?parts"
      unfolding first_wildcard_Split wildcards_star w by simp
    then show ?thesis by simp
  qed
qed

lemma hasWildcardMatch_first:
  "hasWildcardMatch records (ToLower (TrimSuffix_dot (Name q))) t \<Longrightarrow>
   hasWildcardMatch records (first_wildcard q) t"
  unfolding hasWildcardMatch_def hasWildcardMatch_loop_iff
  using wildcards_subset [of q] by blast

lemma wildcards_first:
  "wildcards (Split_dot (ToLower (TrimSuffix_dot (Name q)))) =
     first_wildcard q # tl (wildcards (Split_dot (ToLower (TrimSuffix_dot (Name q)))))"
proof -
  have "\<exists>rest. wildcards (Split_dot (ToLower (TrimSuffix_dot (Name q)))) = first_wildcard q # rest"
    by (subst wildcards_Cons) (simp add: first_wildcard_def)
  then show ?thesis by auto
qed

lemma resolveWildcard_first_None:
  assumes "R (wildcard_question q) = None"
  shows "resolveWildcard R (ToLower (TrimSuffix_dot (Name q))) q = None"
proof -
  have "resolveWildcard R (ToLower (TrimSuffix_dot (Name q))) q =
          resolveWildcard_loop R q
            (first_wildcard q # tl (wildcards (Split_dot (ToLower (TrimSuffix_dot (Name q))))))"
    unfolding resolveWildcard_def by (subst wildcards_first) simp
  then show ?thesis using assms by (simp add: wildcard_question_def)
qed

lemma Resolve_wildcard_question_diverges:
  assumes miss0: "exact_record net records (first_wildcard q) (wildcard_question q) = None"
    and has: "hasWildcardMatch records (first_wildcard q) (Qtype q)"
  shows "Resolve fuel net records (wildcard_question q) = None"
proof (induction fuel)
  case 0
  show ?case by simp
next
  case (Suc fuel)
  let ?wq = "wildcard_question q"
  have qt: "Qtype ?wq = Qtype q" by (simp add: wildcard_question_def)
  have m: "exact_record net records (ToLower (TrimSuffix_dot (Name ?wq))) ?wq = None"
    using miss0 by (simp only: wildcard_domain)
  have h: "hasWildcardMatch records (ToLower (TrimSuffix_dot (Name ?wq))) (Qtype ?wq)"
    using has by (simp only: wildcard_domain qt)
  have "Resolve (Suc fuel) net records ?wq =
          resolveWildcard (Resolve fuel net records) (ToLower (TrimSuffix_dot (Name ?wq))) ?wq"
    using Resolve_wild [OF m h] .
  also have "\<dots> = None"
    using Suc.IH by (intro resolveWildcard_first_None) (simp only: wildcard_question_fix)
  finally show ?case .
qed

text \<open>
  The recursion in general: when a question has no record under its own name, has a
  wildcard match, and its first wildcard candidate has no record that answers, the call
  does not return. A wildcard match is answered only from the first candidate.
\<close>

lemma Resolve_later_wildcard_diverges:
  assumes miss: "exact_record net records (ToLower (TrimSuffix_dot (Name q))) q = None"
    and has: "hasWildcardMatch records (ToLower (TrimSuffix_dot (Name q))) (Qtype q)"
    and miss0: "exact_record net records (first_wildcard q) (wildcard_question q) = None"
  shows "Resolve fuel net records q = None"
proof (cases fuel)
  case 0
  then show ?thesis by simp
next
  case (Suc n)
  have "Resolve n net records (wildcard_question q) = None"
    using Resolve_wildcard_question_diverges [OF miss0 hasWildcardMatch_first [OF has]] .
  then have "resolveWildcard (Resolve n net records) (ToLower (TrimSuffix_dot (Name q))) q = None"
    by (rule resolveWildcard_first_None)
  then show ?thesis using Resolve_wild [OF miss has, of n] Suc by simp
qed

text \<open>Questions of the other types are answered from their exact record or missed.\<close>

lemma Resolve_other_types:
  assumes "Qtype q \<noteq> TypeA" "Qtype q \<noteq> TypeAAAA" "Qtype q \<noteq> TypeCNAME"
    "Qtype q \<noteq> TypeMX" "Qtype q \<noteq> TypeTXT"
  shows "Resolve (Suc fuel) net records q =
     (case exact_record net records (ToLower (TrimSuffix_dot (Name q))) q of
        Some rr \<Rightarrow> Some (Some ((reply_skeleton q)\<lparr>Answer := [rr], Rcode := RcodeSuccess\<rparr>))
      | None \<Rightarrow> Some None)"
proof -
  have "\<not> hasWildcardMatch records d (Qtype q)" for d
    using assms by (simp add: hasWildcardMatch_def hasWildcardMatch_loop_iff wildcard_exists_def)
  then show ?thesis by (simp add: Let_def split: option.splits)
qed

lemma self_loop:
  "Resolve fuel net example_records (question_A ''*.foo.example.'') = None"
proof (induction fuel)
  case 0
  show ?case by simp
next
  case (Suc fuel)
  let ?q = "question_A ''*.foo.example.''"
  have d: "ToLower (TrimSuffix_dot (Name ?q)) = ''*.foo.example''"
    by (simp add: ToLower_def lower_char_def TrimSuffix_dot_def)
  have e: "exact_record net example_records ''*.foo.example'' ?q = None"
    by (simp add: exact_record_def example_records_def no_records_def)
  have w: "wildcards (Split_dot ''*.foo.example'') = [''*.foo.example'', ''*.example'', ''*.'']"
    by (simp add: wildcards_def upt_rec)
  have h: "hasWildcardMatch example_records ''*.foo.example'' (Qtype ?q)"
    unfolding hasWildcardMatch_def w
    by (simp add: wildcard_exists_def example_records_def no_records_def)
  have "Resolve (Suc fuel) net example_records ?q =
          resolveWildcard (Resolve fuel net example_records) ''*.foo.example'' ?q"
    using Resolve_wild [of net example_records ?q fuel] e h unfolding d by simp
  also have "\<dots> = None"
    unfolding resolveWildcard_def w using Suc.IH by (simp add: question_A_def)
  finally show ?case .
qed

text \<open>
  C2 fails on the code. With the single record \<^verbatim>\<open>*.example A 192.0.2.7\<close>, the question
  \<^verbatim>\<open>deep.foo.example. A\<close> has its first table hit at the second candidate, \<^verbatim>\<open>*.example\<close>.
  The loop of \<^verbatim>\<open>resolveWildcard\<close> first calls \<^verbatim>\<open>Resolve\<close> on the candidate
  \<^verbatim>\<open>*.foo.example.\<close>, which has no record of its own but the same wildcard match, so that
  call enters \<^verbatim>\<open>resolveWildcard\<close> with the same first candidate again: the call never
  returns, whatever the fuel.
\<close>

theorem Resolve_deep_wildcard_diverges:
  "Resolve fuel net example_records (question_A ''deep.foo.example.'') = None"
proof (cases fuel)
  case 0
  then show ?thesis by simp
next
  case (Suc n)
  let ?q = "question_A ''deep.foo.example.''"
  have d: "ToLower (TrimSuffix_dot (Name ?q)) = ''deep.foo.example''"
    by (simp add: ToLower_def lower_char_def TrimSuffix_dot_def)
  have e: "exact_record net example_records ''deep.foo.example'' ?q = None"
    by (simp add: exact_record_def example_records_def no_records_def)
  have w: "wildcards (Split_dot ''deep.foo.example'') = [''*.foo.example'', ''*.example'', ''*.'']"
    by (simp add: wildcards_def upt_rec)
  have h: "hasWildcardMatch example_records ''deep.foo.example'' (Qtype ?q)"
    unfolding hasWildcardMatch_def w
    by (simp add: wildcard_exists_def example_records_def no_records_def)
  have "Resolve (Suc n) net example_records ?q =
          resolveWildcard (Resolve n net example_records) ''deep.foo.example'' ?q"
    using Resolve_wild [of net example_records ?q n] e h unfolding d by simp
  also have "\<dots> = None"
    unfolding resolveWildcard_def w using self_loop [of n net] by (simp add: question_A_def)
  finally show ?thesis using Suc by simp
qed


subsection \<open>LRU cache\<close>


lemma wf_New: "wf (NewLRUCache cap d)"
  by (simp add: wf_def NewLRUCache_def)

lemma wf_lookup_iff:
  "wf c \<Longrightarrow> lookup c key = Some e \<longleftrightarrow> (\<exists>a \<in> set (evictList c). heap c a = e \<and> Key e = key)"
  by (auto simp: wf_def lookup_def)

lemma wf_inj: "wf c \<Longrightarrow> inj_on (\<lambda>a. Key (heap c a)) (set (evictList c))"
  unfolding wf_def inj_on_def by (metis option.inject)

lemma wf_distinct_recency: "wf c \<Longrightarrow> distinct (recency c)"
  unfolding recency_def using wf_inj [of c] by (simp add: distinct_map wf_def)

lemma wf_set_recency: "wf c \<Longrightarrow> set (recency c) = fst ` set (items c)"
proof -
  assume w: "wf c"
  have "fst ` set (items c) = dom (map_of (items c))" by (simp add: dom_map_of_conv_image_fst)
  also have "\<dots> = set (recency c)"
    using w unfolding wf_def recency_def dom_def by auto
  finally show ?thesis by simp
qed

lemma wf_length: "wf c \<Longrightarrow> length (items c) = length (evictList c)"
proof -
  assume w: "wf c"
  have "length (items c) = card (fst ` set (items c))"
    using w by (metis distinct_card length_map list.set_map wf_def)
  also have "\<dots> = card (set (recency c))" using w by (simp add: wf_set_recency)
  also have "\<dots> = length (recency c)" using w by (simp add: distinct_card wf_distinct_recency)
  finally show ?thesis by (simp add: recency_def)
qed

lemma map_remove1_inj:
  "inj_on f (set l) \<Longrightarrow> a \<in> set l \<Longrightarrow> map f (remove1 a l) = remove1 (f a) (map f l)"
  by (induction l) (auto simp: inj_on_def)


lemma Delete_absent: "map_of (items c) key = None \<Longrightarrow> Delete c key = c"
  by (simp add: Delete_def)

lemma Delete_present:
  "map_of (items c) key = Some a \<Longrightarrow>
   Delete c key = c\<lparr>evictList := remove1 a (evictList c), items := AList.delete key (items c)\<rparr>"
  by (simp add: Delete_def Remove_def)

lemma lookup_Delete: "lookup (Delete c key) = (lookup c)(key := None)"
proof (cases "map_of (items c) key")
  case None
  then show ?thesis by (auto simp: Delete_absent lookup_def)
next
  case (Some a)
  then show ?thesis by (auto simp: Delete_present lookup_def delete_conv')
qed

lemma wf_remove:
  assumes w: "wf c" and a: "a \<in> set (evictList c)"
  shows "wf (c\<lparr>evictList := remove1 a (evictList c),
               items := AList.delete (Key (heap c a)) (items c)\<rparr>)"
proof -
  let ?k = "Key (heap c a)"
  have d1: "distinct (map fst (AList.delete ?k (items c)))"
    using w by (simp add: wf_def distinct_delete)
  have d2: "distinct (remove1 a (evictList c))" using w by (simp add: wf_def)
  have inj: "inj_on (\<lambda>a. Key (heap c a)) (set (evictList c))" using w by (rule wf_inj)
  have m: "map_of (AList.delete ?k (items c)) key = Some e \<longleftrightarrow>
             (e \<in> set (remove1 a (evictList c)) \<and> Key (heap c e) = key)" for key e
  proof -
    have "map_of (AList.delete ?k (items c)) key = Some e \<longleftrightarrow>
            (key \<noteq> ?k \<and> map_of (items c) key = Some e)"
      by (simp add: delete_conv')
    also have "\<dots> \<longleftrightarrow> (key \<noteq> ?k \<and> e \<in> set (evictList c) \<and> Key (heap c e) = key)"
      using w by (simp add: wf_def)
    also have "\<dots> \<longleftrightarrow> (e \<in> set (remove1 a (evictList c)) \<and> Key (heap c e) = key)"
      using w a inj by (auto simp: wf_def inj_on_def)
    finally show ?thesis .
  qed
  have f: "\<forall>e \<in> set (remove1 a (evictList c)). e < fresh c"
    using w by (auto simp: wf_def dest: notin_set_remove1)
  show ?thesis
    unfolding wf_def using d1 d2 m f by simp
qed

lemma wf_Delete: "wf c \<Longrightarrow> wf (Delete c key)"
proof (cases "map_of (items c) key")
  case None
  assume "wf c" then show ?thesis using None by (simp add: Delete_absent)
next
  case (Some a)
  assume w: "wf c"
  then have a: "a \<in> set (evictList c)" "Key (heap c a) = key" using Some by (auto simp: wf_def)
  show ?thesis using wf_remove [OF w a(1)] a(2) Some by (simp add: Delete_present)
qed

lemma recency_Delete: "wf c \<Longrightarrow> recency (Delete c key) = remove1 key (recency c)"
proof (cases "map_of (items c) key")
  case None
  assume w: "wf c"
  have "key \<notin> set (recency c)"
    using w None by (auto simp: wf_set_recency map_of_eq_None_iff)
  then show ?thesis using None by (simp add: Delete_absent remove1_idem)
next
  case (Some a)
  assume w: "wf c"
  then have a: "a \<in> set (evictList c)" "Key (heap c a) = key" using Some by (auto simp: wf_def)
  show ?thesis
    using map_remove1_inj [OF wf_inj [OF w] a(1)] a(2) Some
    by (simp add: Delete_present recency_def)
qed

lemma removeOldest_Delete:
  "wf c \<Longrightarrow> evictList c \<noteq> [] \<Longrightarrow> removeOldest c = Delete c (last (recency c))"
proof -
  assume w: "wf c" and ne: "evictList c \<noteq> []"
  let ?a = "last (evictList c)"
  have a: "?a \<in> set (evictList c)" using ne by simp
  have k: "last (recency c) = Key (heap c ?a)" using ne by (simp add: recency_def last_map)
  have "map_of (items c) (Key (heap c ?a)) = Some ?a" using w a by (simp add: wf_def)
  then show ?thesis
    using ne k by (cases "evictList c") (simp_all add: removeOldest_def Delete_present Remove_def Let_def)
qed


lemma remove1_last: "distinct l \<Longrightarrow> l \<noteq> [] \<Longrightarrow> remove1 (last l) l = butlast l"
  by (induction l) auto

lemma length_recency [simp]: "length (recency c) = length (evictList c)"
  by (simp add: recency_def)

lemma recency_Nil [simp]: "recency c = [] \<longleftrightarrow> evictList c = []"
  by (simp add: recency_def)

lemma Set_new:
  "map_of (items c) key = None \<Longrightarrow>
   Set c key response ttl now = push_entry (make_room c) (stored c key response ttl now)"
  by (simp add: Set_def push_entry_def make_room_def stored_def Let_def)

lemma load_entry_eq:
  "load_entry now entry c =
     (if now < SExpiresAt entry
      then push_entry (make_room c)
             \<lparr>Key = SKey entry, Entry_Response = SResponse entry, ExpiresAt = SExpiresAt entry\<rparr>
      else c)"
  by (simp add: load_entry_def push_entry_def make_room_def Let_def)

lemma Set_existing:
  "map_of (items c) key = Some a \<Longrightarrow>
   Set c key response ttl now =
     c\<lparr>heap := (heap c)(a := (heap c a)\<lparr>Entry_Response := response,
           ExpiresAt := now + (if ttl = 0 then defaultTTL c else ttl)\<rparr>),
       evictList := MoveToFront (evictList c) a\<rparr>"
  by (simp add: Set_def Let_def)

lemma removeOldest_fields [simp]:
  "fresh (removeOldest c) = fresh c" "heap (removeOldest c) = heap c"
  "capacity (removeOldest c) = capacity c" "defaultTTL (removeOldest c) = defaultTTL c"
  by (simp_all add: removeOldest_def Let_def split: list.splits)

lemma make_room_fields [simp]:
  "fresh (make_room c) = fresh c" "heap (make_room c) = heap c"
  "capacity (make_room c) = capacity c" "defaultTTL (make_room c) = defaultTTL c"
  by (simp_all add: make_room_def)

lemma removeOldest_empty: "evictList c = [] \<Longrightarrow> removeOldest c = c"
  by (simp add: removeOldest_def)

lemma wf_removeOldest: "wf c \<Longrightarrow> wf (removeOldest c)"
  by (cases "evictList c = []") (simp_all add: removeOldest_empty removeOldest_Delete wf_Delete)

lemma wf_make_room: "wf c \<Longrightarrow> wf (make_room c)"
  by (simp add: make_room_def wf_removeOldest)

lemma lookup_make_room:
  "wf c \<Longrightarrow> lookup (make_room c) =
     (if int (length (recency c)) \<ge> capacity c \<and> recency c \<noteq> []
      then (lookup c)(last (recency c) := None) else lookup c)"
  by (cases "evictList c = []")
     (auto simp: make_room_def removeOldest_empty removeOldest_Delete lookup_Delete)

lemma recency_make_room:
  "wf c \<Longrightarrow> recency (make_room c) =
     (if int (length (recency c)) \<ge> capacity c then butlast (recency c) else recency c)"
proof (cases "evictList c = []")
  case True
  then have "recency c = []" by simp
  then show ?thesis using True by (simp add: make_room_def removeOldest_empty del: recency_Nil)
next
  case False
  assume w: "wf c"
  have "remove1 (last (recency c)) (recency c) = butlast (recency c)"
    using wf_distinct_recency [OF w] False by (simp add: remove1_last)
  then show ?thesis
    using w False by (simp add: make_room_def removeOldest_Delete recency_Delete)
qed

lemma wf_push:
  assumes w: "wf c" and n: "map_of (items c) (Key e) = None"
  shows "wf (push_entry c e)"
proof -
  have fr: "fresh c \<notin> set (evictList c)" using w by (auto simp: wf_def)
  have d1: "distinct (map fst (AList.update (Key e) (fresh c) (items c)))"
    using w by (simp add: wf_def distinct_update)
  have m: "map_of (AList.update (Key e) (fresh c) (items c)) key = Some a \<longleftrightarrow>
           (a \<in> set (fresh c # evictList c) \<and> Key (((heap c)(fresh c := e)) a) = key)" for key a
  proof (cases "a = fresh c")
    case True
    then show ?thesis using w n fr by (auto simp: update_conv' wf_def)
  next
    case False
    then show ?thesis using w n fr by (auto simp: update_conv' wf_def)
  qed
  show ?thesis
    unfolding wf_def push_entry_def PushFront_def
    using d1 m fr w by (auto simp: wf_def less_Suc_eq)
qed

lemma lookup_push:
  assumes w: "wf c"
  shows "lookup (push_entry c e) = (lookup c)(Key e \<mapsto> e)"
proof
  fix k
  show "lookup (push_entry c e) k = ((lookup c)(Key e \<mapsto> e)) k"
  proof (cases "k = Key e")
    case True
    then show ?thesis by (simp add: lookup_def push_entry_def update_conv')
  next
    case False
    have "map_of (items c) k = Some a \<Longrightarrow> a \<noteq> fresh c" for a
      using w by (auto simp: wf_def)
    then show ?thesis using False
      by (cases "map_of (items c) k") (auto simp: lookup_def push_entry_def update_conv')
  qed
qed

lemma recency_push:
  assumes w: "wf c"
  shows "recency (push_entry c e) = Key e # recency c"
proof -
  have "\<forall>a \<in> set (evictList c). a \<noteq> fresh c" using w by (auto simp: wf_def)
  then show ?thesis by (simp add: recency_def push_entry_def PushFront_def)
qed


lemma insert_remove1: "a \<in> set l \<Longrightarrow> insert a (set (remove1 a l)) = set l"
  by (induction l) auto

lemma set_MoveToFront [simp]: "set (MoveToFront l a) = set l"
  by (simp add: MoveToFront_def insert_remove1)

lemma distinct_MoveToFront: "distinct l \<Longrightarrow> distinct (MoveToFront l a)"
  by (simp add: MoveToFront_def)

lemma wf_touch:
  assumes w: "wf c" and k: "Key e = Key (heap c a)"
  shows "wf (c\<lparr>heap := (heap c)(a := e), evictList := MoveToFront (evictList c) a\<rparr>)"
proof -
  have "Key (((heap c)(a := e)) b) = Key (heap c b)" for b using k by simp
  then show ?thesis
    using w unfolding wf_def by (simp add: distinct_MoveToFront)
qed

lemma wf_MoveToFront: "wf c \<Longrightarrow> wf (c\<lparr>evictList := MoveToFront (evictList c) a\<rparr>)"
  unfolding wf_def by (simp add: distinct_MoveToFront)

lemma recency_touch:
  assumes w: "wf c" and a: "a \<in> set (evictList c)" and k: "Key e = Key (heap c a)"
  shows "recency (c\<lparr>heap := (heap c)(a := e), evictList := MoveToFront (evictList c) a\<rparr>) =
           Key e # remove1 (Key e) (recency c)"
proof -
  have same: "(\<lambda>b. Key (if b = a then e else heap c b)) = (\<lambda>b. Key (heap c b))"
    using k by auto
  have "map (\<lambda>b. Key (heap c b)) (remove1 a (evictList c)) =
          remove1 (Key (heap c a)) (map (\<lambda>b. Key (heap c b)) (evictList c))"
    using map_remove1_inj [OF wf_inj [OF w] a] .
  then show ?thesis
    using a k by (simp add: recency_def MoveToFront_def same)
qed

lemma recency_MoveToFront:
  assumes w: "wf c" and a: "a \<in> set (evictList c)"
  shows "recency (c\<lparr>evictList := MoveToFront (evictList c) a\<rparr>) =
           Key (heap c a) # remove1 (Key (heap c a)) (recency c)"
  using recency_touch [OF w a, of "heap c a"] by simp

lemma lookup_touch:
  assumes w: "wf c" and m: "map_of (items c) key = Some a"
  shows "lookup (c\<lparr>heap := (heap c)(a := e), evictList := l\<rparr>) = (lookup c)(key \<mapsto> e)"
proof
  fix k
  have "map_of (items c) k = Some a \<Longrightarrow> k = key" using w m by (auto simp: wf_def)
  then show "lookup (c\<lparr>heap := (heap c)(a := e), evictList := l\<rparr>) k = ((lookup c)(key \<mapsto> e)) k"
    using m by (cases "map_of (items c) k") (auto simp: lookup_def)
qed

lemma lookup_evictList [simp]: "lookup (c\<lparr>evictList := l\<rparr>) = lookup c"
  by (auto simp: lookup_def)


lemma wf_Set: "wf c \<Longrightarrow> wf (Set c key response ttl now)"
proof (cases "map_of (items c) key")
  case None
  assume w: "wf c"
  have "lookup (make_room c) key = None"
    using None by (simp add: lookup_make_room [OF w] lookup_def)
  then have n: "map_of (items (make_room c)) (Key (stored c key response ttl now)) = None"
    by (simp add: lookup_def stored_def)
  show ?thesis using wf_push [OF wf_make_room [OF w] n] by (simp add: Set_new [OF None])
next
  case (Some a)
  assume w: "wf c"
  show ?thesis using wf_touch [OF w, of _ a] by (simp add: Set_existing [OF Some])
qed

lemma wf_Get: "wf c \<Longrightarrow> wf (snd (Get c key now))"
  by (simp add: Get_def wf_Delete wf_MoveToFront split: option.splits)

text \<open>
  C6. \<^verbatim>\<open>Set\<close> on a consistent cache stores the response under the key with
  \<open>expires_at = now + ttl\<close>, the default TTL standing in for \<open>ttl = 0\<close>. When the key
  already exists, every other key keeps its entry (nothing is evicted) and the key moves
  to the front of the recency order. When the key is new and the list is at capacity,
  exactly the least recently used key (the last of the recency order) loses its entry
  before the insertion; below capacity nothing is evicted. The new key is the most
  recently used, and the cache stays consistent.
\<close>

theorem Set_contract:
  assumes w: "wf c"
  shows "(case lookup c key of
            Some old \<Rightarrow>
              lookup (Set c key response ttl now) =
                (lookup c)(key \<mapsto> stored c key response ttl now) \<and>
              recency (Set c key response ttl now) = key # remove1 key (recency c)
          | None \<Rightarrow>
              lookup (Set c key response ttl now) =
                (if int (length (recency c)) \<ge> capacity c \<and> recency c \<noteq> []
                 then (lookup c)(last (recency c) := None) else lookup c)
                (key \<mapsto> stored c key response ttl now) \<and>
              recency (Set c key response ttl now) =
                key # (if int (length (recency c)) \<ge> capacity c then butlast (recency c)
                       else recency c)) \<and>
         wf (Set c key response ttl now)"
proof (cases "map_of (items c) key")
  case None
  then have l: "lookup c key = None" by (simp add: lookup_def)
  have n: "map_of (items (make_room c)) (Key (stored c key response ttl now)) = None"
  proof -
    have "lookup (make_room c) key = None"
      using l by (simp add: lookup_make_room [OF w])
    then show ?thesis by (simp add: lookup_def stored_def)
  qed
  have k: "Key (stored c key response ttl now) = key" by (simp add: stored_def)
  show ?thesis
    using l wf_push [OF wf_make_room [OF w] n]
      lookup_push [OF wf_make_room [OF w], of "stored c key response ttl now"]
      recency_push [OF wf_make_room [OF w], of "stored c key response ttl now"]
    by (simp add: Set_new [OF None] k lookup_make_room [OF w] recency_make_room [OF w])
next
  case (Some a)
  then have a: "a \<in> set (evictList c)" "Key (heap c a) = key" using w by (auto simp: wf_def)
  let ?e = "(heap c a)\<lparr>Entry_Response := response,
              ExpiresAt := now + (if ttl = 0 then defaultTTL c else ttl)\<rparr>"
  have e: "?e = stored c key response ttl now"
    using a(2) by (simp add: stored_def)
  have k: "Key ?e = Key (heap c a)" by simp
  have k2: "Key (stored c key response ttl now) = key" by (simp add: stored_def)
  have l: "lookup c key = Some (heap c a)" using Some by (simp add: lookup_def)
  show ?thesis
    using wf_touch [OF w k] recency_touch [OF w a(1) k]
      lookup_touch [OF w Some, where e = ?e and l = "MoveToFront (evictList c) a"]
    unfolding Set_existing [OF Some] e using l k2 by simp
qed

text \<open>
  C7. \<^verbatim>\<open>Get\<close> on a consistent cache: for an absent key it reports a miss and leaves the
  cache as it is; for a present key whose entry is expired (\<open>now\<close> after \<open>ExpiresAt\<close>) it
  reports a miss and removes the entry, all other entries and their order staying; for a
  present key that is not expired it returns the stored response, keeps every entry, and
  makes the key the most recently used. The returned response is a value of its own:
  nothing the caller does with it reaches the stored entry.
\<close>

theorem Get_contract:
  assumes w: "wf c"
  shows "(case lookup c key of
            None \<Rightarrow> Get c key now = (None, c)
          | Some e \<Rightarrow>
              if now > ExpiresAt e
              then fst (Get c key now) = None \<and>
                   lookup (snd (Get c key now)) = (lookup c)(key := None) \<and>
                   recency (snd (Get c key now)) = remove1 key (recency c)
              else fst (Get c key now) = Some (Entry_Response e) \<and>
                   lookup (snd (Get c key now)) = lookup c \<and>
                   recency (snd (Get c key now)) = key # remove1 key (recency c)) \<and>
         wf (snd (Get c key now))"
proof (cases "map_of (items c) key")
  case None
  then show ?thesis using w by (simp add: lookup_def Get_def)
next
  case (Some a)
  then have a: "a \<in> set (evictList c)" "Key (heap c a) = key" using w by (auto simp: wf_def)
  have l: "lookup c key = Some (heap c a)" using Some by (simp add: lookup_def)
  show ?thesis
  proof (cases "now > ExpiresAt (heap c a)")
    case True
    then show ?thesis
      using l Some w by (simp add: Get_def lookup_Delete recency_Delete wf_Delete)
  next
    case False
    then show ?thesis
      using l Some w a recency_MoveToFront [OF w a(1)]
      by (simp add: Get_def wf_MoveToFront)
  qed
qed


lemma remove_element_fields [simp]:
  "heap (remove_element e c) = heap c" "fresh (remove_element e c) = fresh c"
  "capacity (remove_element e c) = capacity c"
  "evictList (remove_element e c) = remove1 e (evictList c)"
  by (simp_all add: remove_element_def Remove_def)

lemma wf_remove_element: "wf c \<Longrightarrow> e \<in> set (evictList c) \<Longrightarrow> wf (remove_element e c)"
  using wf_remove [of c e] by (simp add: remove_element_def Remove_def)

lemma fold_remove_element:
  "wf c \<Longrightarrow> distinct es \<Longrightarrow> set es \<subseteq> set (evictList c) \<Longrightarrow>
   wf (fold remove_element es c) \<and>
   length (evictList (fold remove_element es c)) \<le> length (evictList c) \<and>
   capacity (fold remove_element es c) = capacity c"
proof (induction es arbitrary: c)
  case Nil
  then show ?case by simp
next
  case (Cons e es)
  have e: "e \<in> set (evictList c)" using Cons.prems by simp
  have w1: "wf (remove_element e c)" using Cons.prems e by (simp add: wf_remove_element)
  have s: "set es \<subseteq> set (evictList (remove_element e c))"
  proof
    fix x assume x: "x \<in> set es"
    then have "x \<noteq> e" "x \<in> set (evictList c)" using Cons.prems by auto
    then show "x \<in> set (evictList (remove_element e c))" by (simp add: in_set_remove1)
  qed
  have d: "distinct es" using Cons.prems by simp
  have "length (evictList (remove_element e c)) \<le> length (evictList c)"
    by (simp add: length_remove1)
  then show ?case using Cons.IH [OF w1 d s] by simp
qed

lemma removeExpired_inv:
  assumes w: "wf c"
  shows "wf (removeExpired c now) \<and>
         length (evictList (removeExpired c now)) \<le> length (evictList c) \<and>
         capacity (removeExpired c now) = capacity c"
proof -
  let ?es = "filter (\<lambda>element. now > ExpiresAt (heap c element)) (rev (evictList c))"
  have "distinct ?es" using w by (simp add: wf_def)
  moreover have "set ?es \<subseteq> set (evictList c)" by auto
  ultimately show ?thesis
    using fold_remove_element [OF w, of ?es] by (simp add: removeExpired_def Let_def)
qed

lemma Delete_fields [simp]:
  "capacity (Delete c k) = capacity c" "heap (Delete c k) = heap c"
  by (simp_all add: Delete_def split: option.splits)

lemma length_Delete: "length (evictList (Delete c k)) \<le> length (evictList c)"
  by (simp add: Delete_def Remove_def length_remove1 split: option.splits)

lemma length_MoveToFront [simp]: "length (MoveToFront l a) = length l"
proof (cases "a \<in> set l")
  case True
  then have "0 < length l" by (rule length_pos_if_in_set)
  then show ?thesis using True by (simp add: MoveToFront_def length_remove1)
next
  case False
  then show ?thesis by (simp add: MoveToFront_def)
qed

lemma Set_capacity [simp]: "capacity (Set c key response ttl now) = capacity c"
  by (cases "map_of (items c) key") (simp_all add: Set_new Set_existing push_entry_def)

lemma length_make_room:
  "0 < capacity c \<Longrightarrow> int (length (evictList c)) \<le> capacity c \<Longrightarrow>
   int (length (evictList (make_room c))) < capacity c"
  by (cases "evictList c")
     (auto simp: make_room_def removeOldest_def Remove_def Let_def length_remove1)

lemma length_Set:
  "0 < capacity c \<Longrightarrow> int (length (evictList c)) \<le> capacity c \<Longrightarrow>
   int (length (evictList (Set c key response ttl now))) \<le> capacity c"
proof (cases "map_of (items c) key")
  case None
  assume "0 < capacity c" "int (length (evictList c)) \<le> capacity c"
  then show ?thesis
    using length_make_room [of c] by (simp add: Set_new [OF None] push_entry_def PushFront_def)
next
  case (Some a)
  assume "0 < capacity c" "int (length (evictList c)) \<le> capacity c"
  then show ?thesis by (simp add: Set_existing [OF Some])
qed

lemma bounded_apply_op:
  assumes b: "bounded c" and r: "\<not> is_restore x"
  shows "bounded (apply_op x c)"
proof (cases x)
  case (Op_Get key now)
  have "wf (snd (Get c key now))" using b by (simp add: bounded_def wf_Get)
  moreover have "capacity (snd (Get c key now)) = capacity c"
    by (simp add: Get_def split: option.splits)
  moreover have "length (evictList (snd (Get c key now))) \<le> length (evictList c)"
    using length_Delete [of c key] by (simp add: Get_def split: option.splits)
  ultimately show ?thesis using b Op_Get by (simp add: bounded_def)
next
  case (Op_Set key response ttl now)
  have "wf (Set c key response ttl now)"
    using b by (simp add: bounded_def wf_Set)
  then show ?thesis using b Op_Set length_Set [of c key response ttl now] by (simp add: bounded_def)
next
  case (Op_Delete key)
  then show ?thesis using b length_Delete [of c key] by (simp add: bounded_def wf_Delete)
next
  case Op_Clear
  then show ?thesis using b by (simp add: bounded_def Clear_def wf_def)
next
  case (Op_Sweep now)
  then show ?thesis using b removeExpired_inv [of c now] by (simp add: bounded_def)
next
  case (Op_Restore entries now)
  then show ?thesis using r by simp
qed

lemma bounded_invariant: "bounded c \<Longrightarrow> invariant c"
  by (simp add: bounded_def invariant_def Size_def wf_length wf_set_recency)

lemma bounded_fold:
  "bounded c \<Longrightarrow> \<forall>x \<in> set ops. \<not> is_restore x \<Longrightarrow> bounded (fold apply_op ops c)"
  by (induction ops arbitrary: c) (simp_all add: bounded_apply_op)

text \<open>
  Without a restore the invariant holds after every sequence of operations on a new cache
  of positive capacity, and the cache is consistent.
\<close>

theorem invariant_without_restore:
  assumes "0 < cap" and "\<forall>x \<in> set ops. \<not> is_restore x"
  shows "invariant (fold apply_op ops (NewLRUCache cap d)) \<and>
         wf (fold apply_op ops (NewLRUCache cap d))"
proof -
  have "bounded (NewLRUCache cap d)"
    using assms(1) wf_New [of cap d] by (simp add: bounded_def NewLRUCache_def)
  then have "bounded (fold apply_op ops (NewLRUCache cap d))"
    using assms(2) by (simp add: bounded_fold)
  then show ?thesis by (simp add: bounded_invariant bounded_def)
qed

lemma map_ok_New: "map_ok (NewLRUCache cap d)"
  by (simp add: map_ok_def NewLRUCache_def)

lemma set_AList_delete: "set (AList.delete k al) \<subseteq> set al"
  by (induction al) auto

lemma map_ok_delete:
  "map_ok c \<Longrightarrow> map_ok (c\<lparr>evictList := l, items := AList.delete k (items c)\<rparr>)"
  using set_AList_delete [of k "items c"]
  by (auto simp: map_ok_def list_all_iff distinct_delete)

lemma map_ok_Delete: "map_ok c \<Longrightarrow> map_ok (Delete c key)"
  by (auto simp: Delete_def map_ok_delete split: option.splits)

lemma map_ok_removeOldest: "map_ok c \<Longrightarrow> map_ok (removeOldest c)"
  by (auto simp: removeOldest_def Let_def map_ok_delete split: list.splits)

lemma map_ok_make_room: "map_ok c \<Longrightarrow> map_ok (make_room c)"
  by (simp add: make_room_def map_ok_removeOldest)

lemma map_ok_remove_element: "map_ok c \<Longrightarrow> map_ok (remove_element e c)"
  by (simp add: remove_element_def map_ok_delete)

lemma map_ok_evictList: "map_ok c \<Longrightarrow> map_ok (c\<lparr>evictList := l\<rparr>)"
  by (simp add: map_ok_def)

lemma set_AList_update: "set (AList.update k v al) \<subseteq> insert (k, v) (set al)"
  by (induction al) auto

lemma map_ok_push: "map_ok c \<Longrightarrow> map_ok (push_entry c e)"
proof -
  assume m: "map_ok c"
  have old: "\<And>k a. (k, a) \<in> set (items c) \<Longrightarrow> Key (heap c a) = k \<and> a < fresh c"
    using m by (auto simp: map_ok_def list_all_iff)
  have new: "Key (((heap c)(fresh c := e)) a) = k \<and> a < Suc (fresh c)"
    if "(k, a) \<in> set (AList.update (Key e) (fresh c) (items c))" for k a
  proof -
    have "(k, a) = (Key e, fresh c) \<or> (k, a) \<in> set (items c)"
      using that set_AList_update [of "Key e" "fresh c" "items c"] by blast
    then show ?thesis
    proof
      assume "(k, a) = (Key e, fresh c)" then show ?thesis by simp
    next
      assume "(k, a) \<in> set (items c)"
      then have "Key (heap c a) = k \<and> a < fresh c" by (rule old)
      then show ?thesis by auto
    qed
  qed
  have all: "\<forall>x \<in> set (AList.update (Key e) (fresh c) (items c)).
               case x of (k, a) \<Rightarrow> Key (((heap c)(fresh c := e)) a) = k \<and> a < Suc (fresh c)"
    using new by blast
  show ?thesis
    using m all by (simp add: map_ok_def list_all_iff push_entry_def distinct_update)
qed

lemma map_ok_Set: "map_ok c \<Longrightarrow> map_ok (Set c key response ttl now)"
proof (cases "map_of (items c) key")
  case None
  assume "map_ok c"
  then show ?thesis by (simp add: Set_new [OF None] map_ok_push map_ok_make_room)
next
  case (Some a)
  assume m: "map_ok c"
  then show ?thesis
    by (auto simp: Set_existing [OF Some] map_ok_def list_all_iff)
qed

lemma map_ok_Get: "map_ok c \<Longrightarrow> map_ok (snd (Get c key now))"
  by (simp add: Get_def map_ok_Delete map_ok_evictList split: option.splits)

lemma map_ok_removeExpired: "map_ok c \<Longrightarrow> map_ok (removeExpired c now)"
proof -
  have "map_ok c \<Longrightarrow> map_ok (fold remove_element es c)" for es c
    by (induction es arbitrary: c) (simp_all add: map_ok_remove_element)
  then show "map_ok c \<Longrightarrow> map_ok (removeExpired c now)"
    by (simp add: removeExpired_def Let_def)
qed

lemma map_ok_load: "map_ok c \<Longrightarrow> map_ok (LoadFromFile_loop now es c)"
  by (induction es arbitrary: c) (simp_all add: load_entry_eq map_ok_push map_ok_make_room)

lemma map_ok_Clear: "map_ok c \<Longrightarrow> map_ok (Clear c)"
  by (simp add: Clear_def map_ok_def)

lemma map_ok_apply_op: "map_ok c \<Longrightarrow> map_ok (apply_op x c)"
  by (cases x)
     (simp_all add: map_ok_Get map_ok_Set map_ok_Delete map_ok_removeExpired map_ok_load
        map_ok_Clear)

lemma map_ok_reachable: "map_ok (fold apply_op ops (NewLRUCache cap d))"
proof -
  have "map_ok c \<Longrightarrow> map_ok (fold apply_op ops c)" for c
    by (induction ops arbitrary: c) (simp_all add: map_ok_apply_op)
  then show ?thesis by (simp add: map_ok_New)
qed

lemma wf_map_ok: "wf c \<Longrightarrow> map_ok c"
proof -
  assume w: "wf c"
  have "\<And>k a. (k, a) \<in> set (items c) \<Longrightarrow> Key (heap c a) = k \<and> a < fresh c"
  proof -
    fix k a assume "(k, a) \<in> set (items c)"
    then have "map_of (items c) k = Some a" using w by (simp add: wf_def)
    then show "Key (heap c a) = k \<and> a < fresh c" using w by (auto simp: wf_def)
  qed
  then show ?thesis using w by (auto simp: map_ok_def wf_def list_all_iff)
qed

lemma make_room_id: "int (length (evictList c)) < capacity c \<Longrightarrow> make_room c = c"
  by (simp add: make_room_def)

lemma push_fields [simp]:
  "capacity (push_entry c e) = capacity c"
  "length (evictList (push_entry c e)) = Suc (length (evictList c))"
  by (simp_all add: push_entry_def PushFront_def)

lemma load_loop:
  "wf c \<Longrightarrow> distinct (map SKey es) \<Longrightarrow> \<forall>s \<in> set es. lookup c (SKey s) = None \<Longrightarrow>
   int (length (evictList c)) + int (length (filter (\<lambda>s. now < SExpiresAt s) es)) \<le> capacity c \<Longrightarrow>
   wf (LoadFromFile_loop now es c) \<and>
   lookup (LoadFromFile_loop now es c) =
     lookup c ++ map_of (map (\<lambda>s. (SKey s, entry_of s)) (filter (\<lambda>s. now < SExpiresAt s) es))"
proof (induction es arbitrary: c)
  case Nil
  then show ?case by simp
next
  case (Cons s es)
  show ?case
  proof (cases "now < SExpiresAt s")
    case False
    then have "load_entry now s c = c" by (simp add: load_entry_eq)
    then show ?thesis using Cons False by simp
  next
    case True
    have room: "int (length (evictList c)) < capacity c" using Cons.prems(4) True by simp
    have le: "load_entry now s c = push_entry c (entry_of s)"
      using True room by (simp add: load_entry_eq make_room_id entry_of_def)
    have n: "map_of (items c) (Key (entry_of s)) = None"
      using Cons.prems(3) by (simp add: lookup_def entry_of_def)
    have w1: "wf (push_entry c (entry_of s))" using wf_push [OF Cons.prems(1) n] .
    have l1: "lookup (push_entry c (entry_of s)) = (lookup c)(SKey s \<mapsto> entry_of s)"
      using lookup_push [OF Cons.prems(1), of "entry_of s"] by (simp add: entry_of_def)
    have d: "distinct (map SKey es)" and notin: "SKey s \<notin> SKey ` set es"
      using Cons.prems(2) by auto
    have ne: "SKey t \<noteq> SKey s" if "t \<in> set es" for t
      using notin that by (metis imageI)
    have fresh_keys: "\<forall>t \<in> set es. lookup (push_entry c (entry_of s)) (SKey t) = None"
      using Cons.prems(3) ne by (simp add: l1)
    have cap: "int (length (evictList (push_entry c (entry_of s)))) +
               int (length (filter (\<lambda>s. now < SExpiresAt s) es)) \<le> capacity (push_entry c (entry_of s))"
      using Cons.prems(4) True by simp
    have nd: "SKey s \<notin> dom (map_of (map (\<lambda>s. (SKey s, entry_of s))
                 (filter (\<lambda>s. now < SExpiresAt s) es)))"
      using notin by (auto simp: dom_map_of_conv_image_fst)
    let ?f = "\<lambda>s. (SKey s, entry_of s)"
    let ?P = "\<lambda>s. now < SExpiresAt s"
    have filt: "filter ?P (s # es) = s # filter ?P es" using True by simp
    have eq: "(lookup c)(SKey s \<mapsto> entry_of s) ++ map_of (map ?f (filter ?P es)) =
              lookup c ++ map_of (map ?f (s # filter ?P es))"
      using nd by (simp add: map_add_upd_left)
    have ih: "wf (LoadFromFile_loop now es (push_entry c (entry_of s))) \<and>
              lookup (LoadFromFile_loop now es (push_entry c (entry_of s))) =
                lookup (push_entry c (entry_of s)) ++ map_of (map ?f (filter ?P es))"
      using Cons.IH [OF w1 d fresh_keys cap] .
    have step: "LoadFromFile_loop now (s # es) c =
                LoadFromFile_loop now es (push_entry c (entry_of s))"
      by (simp only: LoadFromFile_loop.simps le)
    show ?thesis
      unfolding step filt using ih unfolding l1 eq .
  qed
qed

lemma dump_keys: "map_ok c \<Longrightarrow> map SKey (dump_entries c t) =
    map fst (filter (\<lambda>(key, entry). t < ExpiresAt (heap c entry)) (items c))"
proof -
  assume m: "map_ok c"
  have "\<forall>(k, a) \<in> set (items c). Key (heap c a) = k"
    using m by (auto simp: map_ok_def list_all_iff)
  then show ?thesis by (auto simp: dump_entries_def)
qed

lemma distinct_dump: "map_ok c \<Longrightarrow> distinct (map SKey (dump_entries c t))"
  by (simp add: dump_keys map_ok_def distinct_map_filter)

lemma map_of_dump:
  assumes m: "map_ok c"
  shows "map_of (map (\<lambda>s. (SKey s, entry_of s)) (filter (\<lambda>s. t2 < SExpiresAt s) (dump_entries c t1))) k =
     (case lookup c k of None \<Rightarrow> None
      | Some e \<Rightarrow> if t1 < ExpiresAt e \<and> t2 < ExpiresAt e then Some e else None)"
proof -
  have keys: "\<forall>(k, a) \<in> set (items c). Key (heap c a) = k"
    using m by (auto simp: map_ok_def list_all_iff)
  have d: "distinct (map fst (items c))" using m by (simp add: map_ok_def)
  have gen: "distinct (map fst al) \<Longrightarrow> \<forall>(k, a) \<in> set al. Key (heap c a) = k \<Longrightarrow>
      map_of (map (\<lambda>s. (SKey s, entry_of s)) (filter (\<lambda>s. t2 < SExpiresAt s)
        (map (\<lambda>(key, entry). \<lparr>SKey = Key (heap c entry),
                           SResponse = Entry_Response (heap c entry),
                           SExpiresAt = ExpiresAt (heap c entry)\<rparr>)
       (filter (\<lambda>(key, entry). t1 < ExpiresAt (heap c entry)) al)))) k =
     (case map_option (heap c) (map_of al k) of None \<Rightarrow> None
      | Some e \<Rightarrow> if t1 < ExpiresAt e \<and> t2 < ExpiresAt e then Some e else None)" for al
  proof (induction al)
    case Nil
    then show ?case by simp
  next
    case (Cons p al)
    obtain k' a where p: "p = (k', a)" by (cases p)
    have kn: "k = k' \<Longrightarrow> map_of al k = None"
      using Cons.prems(1) p by (simp add: map_of_eq_None_iff)
    have ih: "map_of (map (\<lambda>s. (SKey s, entry_of s)) (filter (\<lambda>s. t2 < SExpiresAt s)
        (map (\<lambda>(key, entry). \<lparr>SKey = Key (heap c entry),
                           SResponse = Entry_Response (heap c entry),
                           SExpiresAt = ExpiresAt (heap c entry)\<rparr>)
       (filter (\<lambda>(key, entry). t1 < ExpiresAt (heap c entry)) al)))) k =
     (case map_option (heap c) (map_of al k) of None \<Rightarrow> None
      | Some e \<Rightarrow> if t1 < ExpiresAt e \<and> t2 < ExpiresAt e then Some e else None)"
      using Cons by simp
    have ka: "Key (heap c a) = k'" using Cons.prems(2) p by simp
    show ?case
      unfolding p using ih kn ka by (auto simp: entry_of_def)
  qed
  show ?thesis using gen [OF d keys] by (simp add: dump_entries_def lookup_def)
qed

text \<open>
  The cache's own part of a snapshot and restore, for a codec that reads back what it
  wrote (as gob does once the record types are registered): restoring at \<open>t2\<close> a
  snapshot taken at \<open>t1\<close> into a fresh cache with room gives, under each key, exactly the
  original entry if it was not past its expiry at both instants, and nothing otherwise.
\<close>

lemma snapshot_roundtrip:
  assumes m: "map_ok c"
    and enc: "Encode g (dump_entries c t1) = Inr contents"
    and dec: "Decode g contents = Inr (dump_entries c t1)"
    and cap: "int (length (filter (\<lambda>s. t2 < SExpiresAt s) (dump_entries c t1))) \<le> cap"
  shows "DumpToFile g c None t1 = Inr contents \<and>
         fst (LoadFromFile g (NewLRUCache cap d) (Inr contents) t2) = None \<and>
         (\<forall>key. lookup (snd (LoadFromFile g (NewLRUCache cap d) (Inr contents) t2)) key =
            (case lookup c key of None \<Rightarrow> None
             | Some e \<Rightarrow> if t1 < ExpiresAt e \<and> t2 < ExpiresAt e then Some e else None)) \<and>
         wf (snd (LoadFromFile g (NewLRUCache cap d) (Inr contents) t2))"
proof -
  let ?n = "NewLRUCache cap d"
  have e: "lookup ?n = Map.empty" by (auto simp: lookup_def NewLRUCache_def)
  have c0: "\<forall>s \<in> set (dump_entries c t1). lookup ?n (SKey s) = None" by (simp add: e)
  have room: "int (length (evictList ?n)) +
      int (length (filter (\<lambda>s. t2 < SExpiresAt s) (dump_entries c t1))) \<le> capacity ?n"
    using cap by (simp add: NewLRUCache_def)
  have L: "wf (LoadFromFile_loop t2 (dump_entries c t1) ?n) \<and>
     lookup (LoadFromFile_loop t2 (dump_entries c t1) ?n) =
       lookup ?n ++ map_of (map (\<lambda>s. (SKey s, entry_of s))
         (filter (\<lambda>s. t2 < SExpiresAt s) (dump_entries c t1)))"
    using load_loop [OF wf_New distinct_dump [OF m] c0 room] .
  have "LoadFromFile g ?n (Inr contents) t2 = (None, LoadFromFile_loop t2 (dump_entries c t1) ?n)"
    by (simp add: LoadFromFile_def dec)
  then show ?thesis
    using L by (simp add: DumpToFile_def enc e map_of_dump [OF m])
qed



lemmas cache_eval =
  Set_def Get_def Delete_def NewLRUCache_def lookup_def recency_def removeOldest_def
  MoveToFront_def Remove_def PushFront_def stored_def Let_def Size_def

lemma wf_cache_a: "wf cache_a"
  unfolding cache_a_def by (intro wf_Set wf_New)

lemma wf_cache_ab: "wf cache_ab"
  unfolding cache_ab_def by (intro wf_Set wf_New)

theorem Set_contract_witness:
  "lookup (Set cache_a ''b'' zero_Msg (60 * Second) 7) ''a'' = None \<and>
   lookup (Set cache_a ''b'' zero_Msg (60 * Second) 7) ''b'' =
     Some \<lparr>Key = ''b'', Entry_Response = zero_Msg, ExpiresAt = 7 + 60 * Second\<rparr> \<and>
   recency (Set cache_a ''b'' zero_Msg (60 * Second) 7) = [''b''] \<and>
   recency (Set cache_ab ''a'' zero_Msg 0 9) = [''a'', ''b''] \<and>
   lookup (Set cache_ab ''a'' zero_Msg 0 9) ''a'' =
     Some \<lparr>Key = ''a'', Entry_Response = zero_Msg, ExpiresAt = 9 + 300 * Second\<rparr>"
  using Set_contract [OF wf_cache_a, of "''b''" zero_Msg "60 * Second" 7]
        Set_contract [OF wf_cache_ab, of "''a''" zero_Msg 0 9]
  by (simp add: cache_a_def cache_ab_def cache_eval Second_def)

theorem Get_contract_witness:
  "fst (Get cache_ab ''a'' (5 * Second)) = Some zero_Msg \<and>
   recency (snd (Get cache_ab ''a'' (5 * Second))) = [''a'', ''b''] \<and>
   fst (Get cache_ab ''a'' (11 * Second)) = None \<and>
   recency (snd (Get cache_ab ''a'' (11 * Second))) = [''b''] \<and>
   Get cache_ab ''c'' (5 * Second) = (None, cache_ab)"
  using Get_contract [OF wf_cache_ab, of "''a''" "5 * Second"]
        Get_contract [OF wf_cache_ab, of "''a''" "11 * Second"]
        Get_contract [OF wf_cache_ab, of "''c''" "5 * Second"]
  by (simp add: cache_ab_def cache_eval Second_def)

lemma snapshot_roundtrip_example:
  "lookup (snd (LoadFromFile plain_gob (NewLRUCache 5 (300 * Second))
                  (DumpToFile plain_gob cache_ab None (20 * Second)) (30 * Second))) ''b'' =
     Some \<lparr>Key = ''b'', Entry_Response = zero_Msg, ExpiresAt = 100 * Second\<rparr> \<and>
   lookup (snd (LoadFromFile plain_gob (NewLRUCache 5 (300 * Second))
                  (DumpToFile plain_gob cache_ab None (20 * Second)) (30 * Second))) ''a'' = None"
proof -
  have enc: "Encode plain_gob (dump_entries cache_ab (20 * Second)) =
             Inr (dump_entries cache_ab (20 * Second))"
    by (simp add: plain_gob_def)
  have dec: "Decode plain_gob (dump_entries cache_ab (20 * Second)) =
             Inr (dump_entries cache_ab (20 * Second))"
    by (simp add: plain_gob_def)
  have cap: "int (length (filter (\<lambda>s. 30 * Second < SExpiresAt s)
               (dump_entries cache_ab (20 * Second)))) \<le> 5"
    by (simp add: dump_entries_def cache_ab_def cache_eval Second_def)
  show ?thesis
    using snapshot_roundtrip [OF wf_map_ok [OF wf_cache_ab] enc dec cap, of "300 * Second"]
    by (simp add: cache_ab_def cache_eval Second_def)
qed

text \<open>
  C8 fails on the code. A cache holding the key \<open>k\<close> that restores its own snapshot gets a
  second list element for \<open>k\<close>, because \<^verbatim>\<open>LoadFromFile\<close> does not look for an existing
  key as \<^verbatim>\<open>Set\<close> does: the map has one entry and the list two. After \<^verbatim>\<open>Delete\<close> of
  \<open>k\<close> the map is empty and the list still holds an entry for \<open>k\<close>.
\<close>

theorem restore_breaks_invariant:
  "Size (snd (LoadFromFile plain_gob cache_k (DumpToFile plain_gob cache_k None 0) 0)) = 1 \<and>
   length (evictList (snd (LoadFromFile plain_gob cache_k (DumpToFile plain_gob cache_k None 0) 0))) = 2 \<and>
   \<not> invariant (snd (LoadFromFile plain_gob cache_k (DumpToFile plain_gob cache_k None 0) 0)) \<and>
   Size (Delete (snd (LoadFromFile plain_gob cache_k (DumpToFile plain_gob cache_k None 0) 0)) ''k'') = 0 \<and>
   recency (Delete (snd (LoadFromFile plain_gob cache_k (DumpToFile plain_gob cache_k None 0) 0)) ''k'') = [''k'']"
  by (simp add: invariant_def LoadFromFile_def DumpToFile_def plain_gob_def dump_entries_def
        load_entry_def cache_k_def cache_eval Second_def)

lemma DumpToFile_refuses_records:
  "list_ex carries_record (dump_entries c now) \<Longrightarrow>
   DumpToFile unregistered_gob c None now = Inl ''gob: type not registered for interface''"
  by (simp add: DumpToFile_def unregistered_gob_def)

text \<open>
  C9 fails on the code. The cache holds the answer to \<^verbatim>\<open>example.com. A IN\<close>, not expired
  at the instant 0 of the snapshot. \<^verbatim>\<open>DumpToFile\<close> collects the entry and hands it to the
  gob encoder, which refuses the A record in its answer section, because no record type
  is registered: \<^verbatim>\<open>DumpToFile\<close> returns the error, no snapshot holds the entry, and there
  is nothing a restore could bring back.
\<close>

theorem DumpToFile_cached_answer_fails:
  "lookup cache_rr ''example.com.:A:IN'' =
     Some \<lparr>Key = ''example.com.:A:IN'', Entry_Response = answer_msg,
           ExpiresAt = 300 * Second\<rparr> \<and>
   dump_entries cache_rr 0 =
     [\<lparr>SKey = ''example.com.:A:IN'', SResponse = answer_msg, SExpiresAt = 300 * Second\<rparr>] \<and>
   DumpToFile unregistered_gob cache_rr None 0 = Inl ''gob: type not registered for interface''"
  by (simp add: DumpToFile_def unregistered_gob_def carries_record_def dump_entries_def
        answer_msg_def zero_Msg_def cache_rr_def cache_eval Second_def)

subsection \<open>Upstream forwarder\<close>

lemma fold_last_error:
  "fold (\<lambda>x _. Some (f x)) xs le = (if xs = [] then le else Some (f (last xs)))"
  by (induction xs arbitrary: le) auto

lemma servers_loop_fail:
  "\<forall>(i, s) \<in> set svs. \<not> ctx_done net a i \<and> \<not> acceptable (exchange net a i s) \<Longrightarrow>
   servers_loop net a svs le =
     (Fallthrough (fold (\<lambda>(i, s) _. Some (recorded s (exchange net a i s))) svs le),
      map (\<lambda>(i, s). Query a i s) svs)"
proof (induction svs arbitrary: le)
  case Nil
  then show ?case by simp
next
  case (Cons x svs)
  obtain i s where x: "x = (i, s)" by (cases x)
  have nd: "\<not> ctx_done net a i" and na: "\<not> acceptable (exchange net a i s)"
    using Cons.prems x by auto
  have rest: "\<forall>(i, s) \<in> set svs. \<not> ctx_done net a i \<and> \<not> acceptable (exchange net a i s)"
    using Cons.prems by simp
  show ?case
  proof (cases "exchange net a i s")
    case (Inl err)
    then show ?thesis
      using nd Cons.IH [OF rest, of "Some (Exchange_failed s err)"] x
      by (simp add: recorded_def)
  next
    case (Inr response)
    then have "\<not> (Rcode response = RcodeSuccess \<or> Rcode response = RcodeNameError)"
      using na by (simp add: acceptable_def)
    then show ?thesis
      using nd Inr Cons.IH [OF rest, of "Some (Server_rcode (Rcode response))"] x
      by (simp add: recorded_def)
  qed
qed

lemma servers_loop_hit:
  "\<forall>(j, t) \<in> set pre. \<not> ctx_done net a j \<and> \<not> acceptable (exchange net a j t) \<Longrightarrow>
   \<not> ctx_done net a i \<Longrightarrow> exchange net a i s = Inr m \<Longrightarrow> acceptable (Inr m) \<Longrightarrow>
   servers_loop net a (pre @ (i, s) # post) le =
     (Return (Inr m), map (\<lambda>(i, s). Query a i s) (pre @ [(i, s)]))"
proof (induction pre arbitrary: le)
  case Nil
  then show ?case by (simp add: acceptable_def)
next
  case (Cons x pre)
  obtain j t where x: "x = (j, t)" by (cases x)
  have nd: "\<not> ctx_done net a j" and na: "\<not> acceptable (exchange net a j t)"
    using Cons.prems(1) x by auto
  have rest: "\<forall>(j, t) \<in> set pre. \<not> ctx_done net a j \<and> \<not> acceptable (exchange net a j t)"
    using Cons.prems(1) by simp
  note ih = Cons.IH [OF rest Cons.prems(2) Cons.prems(3) Cons.prems(4)]
  show ?case
  proof (cases "exchange net a j t")
    case (Inl err)
    then show ?thesis using nd ih [of "Some (Exchange_failed t err)"] x by simp
  next
    case (Inr response)
    then have "\<not> (Rcode response = RcodeSuccess \<or> Rcode response = RcodeNameError)"
      using na by (simp add: acceptable_def)
    then show ?thesis
      using nd Inr ih [of "Some (Server_rcode (Rcode response))"] x by simp
  qed
qed

lemma enumerate_split:
  "i < length xs \<Longrightarrow>
   enumerate 0 xs = enumerate 0 (take i xs) @ (i, xs ! i) # enumerate (Suc i) (drop (Suc i) xs)"
proof -
  assume i: "i < length xs"
  have "enumerate 0 xs = enumerate 0 (take i xs @ xs ! i # drop (Suc i) xs)"
    using i by (simp add: id_take_nth_drop [symmetric])
  also have "\<dots> = enumerate 0 (take i xs) @ enumerate i (xs ! i # drop (Suc i) xs)"
    using i by (simp add: enumerate_append_eq)
  finally show ?thesis by simp
qed

lemma in_enumerate_take:
  "(j, t) \<in> set (enumerate 0 (take i xs)) \<Longrightarrow> j < i \<and> j < length xs \<and> t = xs ! j"
  by (auto simp: in_set_enumerate_eq)

lemma in_enumerate:
  "(j, t) \<in> set (enumerate 0 xs) \<Longrightarrow> j < length xs \<and> t = xs ! j"
  by (auto simp: in_set_enumerate_eq)

lemma take_round:
  "i < length (servers r) \<Longrightarrow>
   map (\<lambda>(i, s). Query a i s) (enumerate 0 (take i (servers r)) @ [(i, servers r ! i)]) =
     take (Suc i) (round r a)"
proof -
  assume i: "i < length (servers r)"
  have "take (Suc i) (enumerate 0 (servers r)) =
          enumerate 0 (take i (servers r)) @ [(i, servers r ! i)]"
    using i by (subst enumerate_split [OF i]) simp
  then show ?thesis by (simp add: round_def take_map)
qed

lemma last_enumerate:
  "xs \<noteq> [] \<Longrightarrow> last (enumerate 0 xs) = (length xs - 1, last xs)"
proof -
  assume ne: "xs \<noteq> []"
  then have l: "enumerate 0 xs \<noteq> []" by (cases xs) simp_all
  have "last (enumerate 0 xs) = enumerate 0 xs ! (length xs - 1)"
    using l by (simp add: last_conv_nth)
  also have "\<dots> = (length xs - 1, xs ! (length xs - 1))"
    using ne by (simp add: nth_enumerate_eq)
  finally show ?thesis using ne by (simp add: last_conv_nth)
qed

lemma round_fails_loop:
  assumes nd: "never_done net" and rf: "round_fails net r a"
  shows "servers_loop net a (enumerate 0 (servers r)) le =
           (Fallthrough (if servers r = [] then le
              else Some (recorded (last (servers r))
                     (exchange net a (length (servers r) - 1) (last (servers r))))),
            round r a)"
proof -
  have h: "\<forall>(i, s) \<in> set (enumerate 0 (servers r)).
             \<not> ctx_done net a i \<and> \<not> acceptable (exchange net a i s)"
    using nd rf by (auto simp: never_done_def round_fails_def list_all_iff)
  have e: "enumerate 0 (servers r) = [] \<longleftrightarrow> servers r = []"
    by (cases "servers r") simp_all
  have fl: "fold (\<lambda>(i, s) _. Some (recorded s (exchange net a i s))) svs le =
            (if svs = [] then le
             else Some (recorded (snd (last svs)) (exchange net a (fst (last svs)) (snd (last svs)))))"
    for svs
    using fold_last_error [of "\<lambda>p. recorded (snd p) (exchange net a (fst p) (snd p))" svs le]
    by (simp add: case_prod_unfold)
  show ?thesis
    unfolding servers_loop_fail [OF h] fl round_def
    by (simp add: e last_enumerate)
qed

lemma attempts_fail:
  assumes nd: "never_done net"
  shows "\<forall>a'. a \<le> a' \<and> a' \<le> retries r \<longrightarrow> round_fails net r a' \<Longrightarrow>
         attempts_loop net r q a le =
           (Inl (Resolve_failed (Name q) (retries r + 1) (final_error net r a le)),
            failed_trace r a)"
proof (induction "nat (retries r + 1 - a)" arbitrary: a le)
  case 0
  then have gt: "\<not> a \<le> retries r" by simp
  then have "[a..retries r] = []" by simp
  then show ?case
    using gt by (subst attempts_loop.simps) (simp add: failed_trace_def final_error_def)
next
  case (Suc n)
  then have le_r: "a \<le> retries r" by linarith
  have rf: "round_fails net r a" using Suc.prems le_r by simp
  let ?le' = "if servers r = [] then le
              else Some (recorded (last (servers r))
                     (exchange net a (length (servers r) - 1) (last (servers r))))"
  have sl: "servers_loop net a (enumerate 0 (servers r)) le = (Fallthrough ?le', round r a)"
    using round_fails_loop [OF nd rf] .
  have n: "n = nat (retries r + 1 - (a + 1))" using Suc.hyps(2) by linarith
  have rest: "\<forall>a'. a + 1 \<le> a' \<and> a' \<le> retries r \<longrightarrow> round_fails net r a'"
    using Suc.prems by simp
  have ih: "attempts_loop net r q (a + 1) ?le' =
              (Inl (Resolve_failed (Name q) (retries r + 1) (final_error net r (a + 1) ?le')),
               failed_trace r (a + 1))"
    using Suc.hyps(1) [OF n rest] .
  have up: "[a..retries r] = a # [a + 1..retries r]" using le_r by (simp add: upto_rec1)
  have nb: "\<not> ctx_done_backoff net a" using nd by (simp add: never_done_def)
  show ?case
  proof (cases "a < retries r")
    case True
    have fe: "final_error net r (a + 1) ?le' = final_error net r a le"
      using True by (simp add: final_error_def)
    have tr: "round r a @ backoff a # failed_trace r (a + 1) = failed_trace r a"
      using True by (simp add: failed_trace_def up)
    show ?thesis
      using le_r True nb sl ih fe tr
      by (subst attempts_loop.simps) (simp add: backoff_def)
  next
    case False
    then have eq: "a = retries r" using le_r by simp
    have fe: "final_error net r (a + 1) ?le' = final_error net r a le"
      using eq by (simp add: final_error_def)
    have "[a + 1..retries r] = []" using eq by simp
    then have tr: "round r a @ failed_trace r (a + 1) = failed_trace r a"
      using False by (simp add: failed_trace_def up)
    show ?thesis
      using le_r False sl ih fe tr
      by (subst attempts_loop.simps) simp
  qed
qed

lemma round_hit_loop:
  assumes nd: "never_done net" and i: "i < length (servers r)"
    and before: "\<forall>j<i. \<not> acceptable (exchange net h j (servers r ! j))"
    and m: "exchange net h i (servers r ! i) = Inr m" and acc: "acceptable (Inr m)"
  shows "servers_loop net h (enumerate 0 (servers r)) le =
           (Return (Inr m), take (Suc i) (round r h))"
proof -
  have pre: "\<forall>(j, t) \<in> set (enumerate 0 (take i (servers r))).
               \<not> ctx_done net h j \<and> \<not> acceptable (exchange net h j t)"
    using nd before by (auto simp: never_done_def dest!: in_enumerate_take)
  have ndi: "\<not> ctx_done net h i" using nd by (simp add: never_done_def)
  show ?thesis
    using servers_loop_hit [OF pre ndi m acc, of "enumerate (Suc i) (drop (Suc i) (servers r))" le]
    by (simp only: enumerate_split [OF i, symmetric] take_round [OF i])
qed

lemma attempts_hit:
  assumes nd: "never_done net" and i: "i < length (servers r)"
    and before: "\<forall>j<i. \<not> acceptable (exchange net h j (servers r ! j))"
    and m: "exchange net h i (servers r ! i) = Inr m" and acc: "acceptable (Inr m)"
    and hr: "h \<le> retries r"
  shows "a \<le> h \<Longrightarrow> \<forall>a'. a \<le> a' \<and> a' < h \<longrightarrow> round_fails net r a' \<Longrightarrow>
         attempts_loop net r q a le =
           (Inr m, concat (map (\<lambda>a'. round r a' @ [backoff a']) [a..h - 1]) @
                   take (Suc i) (round r h))"
proof (induction "nat (h - a)" arbitrary: a le)
  case 0
  then have eq: "a = h" by simp
  have "[h..h - 1] = []" by simp
  then show ?case
    using hr round_hit_loop [OF nd i before m acc, of le] unfolding eq
    by (subst attempts_loop.simps) simp
next
  case (Suc n)
  then have lt: "a < h" by linarith
  then have le_r: "a \<le> retries r" and lt_r: "a < retries r" using hr by auto
  have rf: "round_fails net r a" using Suc.prems lt by simp
  let ?le' = "if servers r = [] then le
              else Some (recorded (last (servers r))
                     (exchange net a (length (servers r) - 1) (last (servers r))))"
  have sl: "servers_loop net a (enumerate 0 (servers r)) le = (Fallthrough ?le', round r a)"
    using round_fails_loop [OF nd rf] .
  have n: "n = nat (h - (a + 1))" using Suc.hyps(2) by linarith
  have a1: "a + 1 \<le> h" using lt by simp
  have rest: "\<forall>a'. a + 1 \<le> a' \<and> a' < h \<longrightarrow> round_fails net r a'"
    using Suc.prems by simp
  have ih: "attempts_loop net r q (a + 1) ?le' =
              (Inr m, concat (map (\<lambda>a'. round r a' @ [backoff a']) [a + 1..h - 1]) @
                      take (Suc i) (round r h))"
    using Suc.hyps(1) [OF n a1 rest] .
  have up: "[a..h - 1] = a # [a + 1..h - 1]" using lt by (simp add: upto_rec1)
  have nb: "\<not> ctx_done_backoff net a" using nd by (simp add: never_done_def)
  show ?case
    using le_r lt_r nb sl ih
    by (subst attempts_loop.simps) (simp add: backoff_def up)
qed

lemma servers_loop_Return_Inr:
  "servers_loop net a svs le = (Return (Inr m), tr) \<Longrightarrow>
   \<exists>i s. exchange net a i s = Inr m \<and> acceptable (Inr m)"
proof (induction svs arbitrary: le tr)
  case Nil
  then show ?case by simp
next
  case (Cons x svs)
  obtain i s where x: "x = (i, s)" by (cases x)
  show ?case
  proof (cases "ctx_done net a i")
    case True
    then show ?thesis using Cons.prems x by simp
  next
    case nd: False
    show ?thesis
    proof (cases "exchange net a i s")
      case (Inl err)
      obtain ex tr' where r: "servers_loop net a svs (Some (Exchange_failed s err)) = (ex, tr')"
        by (cases "servers_loop net a svs (Some (Exchange_failed s err))")
      then have "ex = Return (Inr m)" using Cons.prems x nd Inl by simp
      then show ?thesis using Cons.IH r by blast
    next
      case (Inr response)
      show ?thesis
      proof (cases "Rcode response = RcodeSuccess \<or> Rcode response = RcodeNameError")
        case True
        then have "response = m" using Cons.prems x nd Inr by simp
        then show ?thesis using Inr True by (auto simp: acceptable_def)
      next
        case False
        obtain ex tr' where r: "servers_loop net a svs (Some (Server_rcode (Rcode response))) = (ex, tr')"
          by (cases "servers_loop net a svs (Some (Server_rcode (Rcode response)))")
        then have "ex = Return (Inr m)" using Cons.prems x nd Inr False by simp
        then show ?thesis using Cons.IH r by blast
      qed
    qed
  qed
qed

lemma attempts_loop_Inr:
  "fst (attempts_loop net r q a le) = Inr m \<Longrightarrow>
   \<exists>a' i s. exchange net a' i s = Inr m \<and> acceptable (Inr m)"
proof (induction "nat (retries r + 1 - a)" arbitrary: a le)
  case 0
  then have "\<not> a \<le> retries r" by simp
  then have "fst (attempts_loop net r q a le) =
     Inl (Resolve_failed (Name q) (retries r + 1) (case le of None \<Rightarrow> All_failed | Some err \<Rightarrow> err))"
    by (subst attempts_loop.simps) simp
  then show ?case using "0.prems" by simp
next
  case (Suc n)
  then have le_r: "a \<le> retries r" by linarith
  have n: "n = nat (retries r + 1 - (a + 1))" using Suc.hyps(2) by linarith
  obtain ex tr where sl: "servers_loop net a (enumerate 0 (servers r)) le = (ex, tr)"
    by (cases "servers_loop net a (enumerate 0 (servers r)) le")
  show ?case
  proof (cases ex)
    case (Return res)
    then have "fst (attempts_loop net r q a le) = res"
      using le_r sl by (subst attempts_loop.simps) simp
    then have "res = Inr m" using Suc.prems by simp
    then show ?thesis using servers_loop_Return_Inr [of net a _ le m tr] sl Return by blast
  next
    case (Fallthrough le')
    obtain res tr' where rec: "attempts_loop net r q (a + 1) le' = (res, tr')"
      by (cases "attempts_loop net r q (a + 1) le'")
    have "fst (attempts_loop net r q a le) = Inr m" using Suc.prems .
    then have "res = Inr m"
      using le_r sl Fallthrough rec
      by (subst (asm) attempts_loop.simps) (simp split: if_splits)
    then show ?thesis using Suc.hyps(1) [OF n, of le'] rec by simp
  qed
qed

text \<open>
  C3. While the context is never found cancelled, for every question and every outcome
  of every query: if round \<open>h\<close>, server \<open>i\<close> is the first query in the order of the loops
  (rounds 0 to \<open>retries\<close>, the servers in list order within a round) whose outcome is a
  response with rcode NOERROR or NXDOMAIN, that response is returned, and what the
  forwarder did is: every earlier round in full, each followed by its back-off of
  \<open>(attempt + 1) * 100\<close> ms, then the servers of round \<open>h\<close> up to \<open>i\<close> and nothing after
  it. If no query has such an outcome, the forwarder did every round in full, with a
  back-off after every round but the last and none between two servers of a round, and
  returns the error wrapping the error recorded last, or the synthesized "all upstream
  servers failed" if none was recorded. A returned response is always the acceptable
  response of some query, never a made-up message.
\<close>

theorem Upstream_Resolve_contract:
  assumes nd: "never_done net"
  shows
    "(\<forall>h i m. 0 \<le> h \<and> h \<le> retries r \<and> i < length (servers r) \<and>
        (\<forall>a. 0 \<le> a \<and> a < h \<longrightarrow> round_fails net r a) \<and>
        (\<forall>j<i. \<not> acceptable (exchange net h j (servers r ! j))) \<and>
        exchange net h i (servers r ! i) = Inr m \<and> acceptable (Inr m) \<longrightarrow>
        Upstream_Resolve net r q =
          (Inr m, concat (map (\<lambda>a. round r a @ [backoff a]) [0..h - 1]) @
                  take (Suc i) (round r h))) \<and>
     ((\<forall>a. 0 \<le> a \<and> a \<le> retries r \<longrightarrow> round_fails net r a) \<longrightarrow>
        Upstream_Resolve net r q =
          (Inl (Resolve_failed (Name q) (retries r + 1) (final_error net r 0 None)),
           failed_trace r 0)) \<and>
     (\<forall>m. fst (Upstream_Resolve net r q) = Inr m \<longrightarrow>
        (\<exists>a i s. exchange net a i s = Inr m \<and> acceptable (Inr m)))"
proof (intro conjI allI impI)
  fix h i m
  assume a: "0 \<le> h \<and> h \<le> retries r \<and> i < length (servers r) \<and>
        (\<forall>a. 0 \<le> a \<and> a < h \<longrightarrow> round_fails net r a) \<and>
        (\<forall>j<i. \<not> acceptable (exchange net h j (servers r ! j))) \<and>
        exchange net h i (servers r ! i) = Inr m \<and> acceptable (Inr m)"
  then have i: "i < length (servers r)"
    and before: "\<forall>j<i. \<not> acceptable (exchange net h j (servers r ! j))"
    and m: "exchange net h i (servers r ! i) = Inr m" and acc: "acceptable (Inr m)"
    and hr: "h \<le> retries r" and h0: "0 \<le> h"
    and rounds: "\<forall>a. 0 \<le> a \<and> a < h \<longrightarrow> round_fails net r a"
    by simp_all
  show "Upstream_Resolve net r q =
          (Inr m, concat (map (\<lambda>a. round r a @ [backoff a]) [0..h - 1]) @
                  take (Suc i) (round r h))"
    unfolding Upstream_Resolve_def
    using attempts_hit [OF nd i before m acc hr h0 rounds] .
next
  assume "\<forall>a. 0 \<le> a \<and> a \<le> retries r \<longrightarrow> round_fails net r a"
  then show "Upstream_Resolve net r q =
          (Inl (Resolve_failed (Name q) (retries r + 1) (final_error net r 0 None)),
           failed_trace r 0)"
    unfolding Upstream_Resolve_def using attempts_fail [OF nd] by blast
next
  fix m
  assume "fst (Upstream_Resolve net r q) = Inr m"
  then show "\<exists>a i s. exchange net a i s = Inr m \<and> acceptable (Inr m)"
    unfolding Upstream_Resolve_def by (rule attempts_loop_Inr)
qed

theorem Upstream_Resolve_contract_witness:
  "Upstream_Resolve flaky_net example_resolver (question_A ''example.com.'') =
     (Inr (reply RcodeNameError),
      [Query 0 0 ''10.0.0.1:53'', Query 0 1 ''10.0.0.2:53'', Sleep (100 * Millisecond),
       Query 1 0 ''10.0.0.1:53'']) \<and>
   Upstream_Resolve dead_net example_resolver (question_A ''example.com.'') =
     (Inl (Resolve_failed ''example.com.'' 2 (Server_rcode RcodeServerFailure)),
      [Query 0 0 ''10.0.0.1:53'', Query 0 1 ''10.0.0.2:53'', Sleep (100 * Millisecond),
       Query 1 0 ''10.0.0.1:53'', Query 1 1 ''10.0.0.2:53''])"
proof -
  let ?q = "question_A ''example.com.''"
  have nd1: "never_done flaky_net" by (simp add: never_done_def flaky_net_def)
  have nd2: "never_done dead_net" by (simp add: never_done_def dead_net_def)
  have codes: "RcodeServerFailure \<noteq> RcodeSuccess" "RcodeServerFailure \<noteq> RcodeNameError"
    by (simp_all add: RcodeServerFailure_def RcodeSuccess_def RcodeNameError_def)
  have rf1: "round_fails flaky_net example_resolver 0"
    using codes
    by (simp add: round_fails_def example_resolver_def flaky_net_def acceptable_def reply_def)
  have h1: "0 \<le> (1::int) \<and> 1 \<le> retries example_resolver \<and> 0 < length (servers example_resolver) \<and>
        (\<forall>a. 0 \<le> a \<and> a < 1 \<longrightarrow> round_fails flaky_net example_resolver a) \<and>
        (\<forall>j<0. \<not> acceptable (exchange flaky_net 1 j (servers example_resolver ! j))) \<and>
        exchange flaky_net 1 0 (servers example_resolver ! 0) = Inr (reply RcodeNameError) \<and>
        acceptable (Inr (reply RcodeNameError))"
  proof -
    have "\<forall>a::int. 0 \<le> a \<and> a < 1 \<longrightarrow> a = 0" by auto
    then have "\<forall>a. 0 \<le> a \<and> a < 1 \<longrightarrow> round_fails flaky_net example_resolver a"
      using rf1 by blast
    then show ?thesis
      by (simp add: example_resolver_def flaky_net_def acceptable_def reply_def)
  qed
  have A: "Upstream_Resolve flaky_net example_resolver ?q =
          (Inr (reply RcodeNameError),
           concat (map (\<lambda>a. round example_resolver a @ [backoff a]) [0..1 - 1]) @
                  take (Suc 0) (round example_resolver 1))"
    using Upstream_Resolve_contract [OF nd1, of example_resolver ?q] h1 by blast
  have rf2: "round_fails dead_net example_resolver a" for a
    using codes
    by (simp add: round_fails_def example_resolver_def dead_net_def acceptable_def reply_def)
  have B: "Upstream_Resolve dead_net example_resolver ?q =
          (Inl (Resolve_failed (Name ?q) (retries example_resolver + 1)
                 (final_error dead_net example_resolver 0 None)),
           failed_trace example_resolver 0)"
    using Upstream_Resolve_contract [OF nd2, of example_resolver ?q] rf2 by blast
  have up: "[0..(1::int)] = [0, 1]" by (simp add: upto_rec1)
  show ?thesis
    unfolding A B
    by (simp add: round_def backoff_def failed_trace_def final_error_def example_resolver_def
          dead_net_def recorded_def reply_def question_A_def up)
qed

subsection \<open>Request handler\<close>

lemma isSupportedType_iff: "isSupportedType t \<longleftrightarrow> t \<in> supported_types"
  by (simp add: isSupportedType_def supported_types_def)

lemma lookup_Get_subset: "dom (lookup (snd (Get c key now))) \<subseteq> dom (lookup c)"
  by (auto simp: Get_def lookup_Delete split: option.splits if_splits)

lemma length_AList_delete: "length (AList.delete k al) \<le> length al"
  by (induction al) auto

lemma Size_Get: "Size (snd (Get c key now)) \<le> Size c"
  by (simp add: Get_def Size_def Delete_def length_AList_delete split: option.splits)

lemma skeleton_sel [simp]:
  "Id (skeleton r) = Id r" "Response (skeleton r)" "\<not> Authoritative (skeleton r)"
  "RecursionAvailable (skeleton r)" "Question (skeleton r) = take 1 (Question r)"
  "Answer (skeleton r) = []"
  by (simp_all add: skeleton_def SetReply_def zero_Msg_def Let_def split: list.splits)

text \<open>
  C5. For every inbound query \<open>r\<close>: with zero questions the handler writes the skeleton
  reply with rcode FORMERR; when the type of the first question is outside the supported
  set of twenty it writes the skeleton reply with rcode NOTIMP; in both cases the cache is
  untouched. When the first question is supported, the cache misses, the local resolver
  reports a miss and the upstream resolver returns an error, the handler writes the
  skeleton reply with rcode SERVFAIL and the cache is left as the lookup left it: no key
  has an entry that had none before. The skeleton echoes the id and the first question,
  has QR set, AA clear, RA set and no answer.
\<close>

theorem ServeDNS_error_shaping:
  "(Question r = [] \<longrightarrow>
      ServeDNS fuel net names h r now later =
        Some ((skeleton r)\<lparr>Rcode := RcodeFormatError\<rparr>, cache h)) \<and>
   (\<forall>q qs. Question r = q # qs \<and> Qtype q \<notin> supported_types \<longrightarrow>
      ServeDNS fuel net names h r now later =
        Some ((skeleton r)\<lparr>Rcode := RcodeNotImplemented\<rparr>, cache h)) \<and>
   (\<forall>q qs err. Question r = q # qs \<and> Qtype q \<in> supported_types \<and>
      fst (Get (cache h) (GenerateCacheKey names q) now) = None \<and>
      Resolve fuel net (localResolver h) q = Some None \<and>
      resolver h q = Inl err \<longrightarrow>
      ServeDNS fuel net names h r now later =
        Some ((skeleton r)\<lparr>Rcode := RcodeServerFailure\<rparr>,
              snd (Get (cache h) (GenerateCacheKey names q) now)) \<and>
      dom (lookup (snd (Get (cache h) (GenerateCacheKey names q) now))) \<subseteq> dom (lookup (cache h)) \<and>
      Size (snd (Get (cache h) (GenerateCacheKey names q) now)) \<le> Size (cache h)) \<and>
   Id (skeleton r) = Id r \<and> Response (skeleton r) \<and> \<not> Authoritative (skeleton r) \<and>
   RecursionAvailable (skeleton r) \<and> Question (skeleton r) = take 1 (Question r) \<and>
   Answer (skeleton r) = []"
proof -
  have a: "Question r = [] \<Longrightarrow>
      ServeDNS fuel net names h r now later =
        Some ((skeleton r)\<lparr>Rcode := RcodeFormatError\<rparr>, cache h)"
    by (simp add: ServeDNS_def Let_def)
  have b: "Question r = q # qs \<Longrightarrow> Qtype q \<notin> supported_types \<Longrightarrow>
      ServeDNS fuel net names h r now later =
        Some ((skeleton r)\<lparr>Rcode := RcodeNotImplemented\<rparr>, cache h)" for q qs
    by (simp add: ServeDNS_def Let_def isSupportedType_iff)
  have c: "Question r = q # qs \<Longrightarrow> Qtype q \<in> supported_types \<Longrightarrow>
      fst (Get (cache h) (GenerateCacheKey names q) now) = None \<Longrightarrow>
      Resolve fuel net (localResolver h) q = Some None \<Longrightarrow>
      resolver h q = Inl err \<Longrightarrow>
      ServeDNS fuel net names h r now later =
        Some ((skeleton r)\<lparr>Rcode := RcodeServerFailure\<rparr>,
              snd (Get (cache h) (GenerateCacheKey names q) now))" for q qs err
    by (cases "Get (cache h) (GenerateCacheKey names q) now")
       (simp add: ServeDNS_def Let_def isSupportedType_iff)
  show ?thesis
    using a b c lookup_Get_subset Size_Get by simp
qed

lemma exact_record_Ttl:
  assumes "exact_record net records domain q = Some rr"
    and "Qtype q = TypeA \<or> Qtype q = TypeAAAA \<or> Qtype q = TypeCNAME \<or> Qtype q = TypeMX \<or>
         Qtype q = TypeTXT"
  shows "Ttl (Hdr rr) = 300"
proof -
  have ne: "TypeA \<noteq> TypeAAAA" "TypeA \<noteq> TypeCNAME" "TypeA \<noteq> TypeMX" "TypeA \<noteq> TypeTXT"
    "TypeAAAA \<noteq> TypeCNAME" "TypeAAAA \<noteq> TypeMX" "TypeAAAA \<noteq> TypeTXT"
    "TypeCNAME \<noteq> TypeMX" "TypeCNAME \<noteq> TypeTXT" "TypeMX \<noteq> TypeTXT"
    by (simp_all add: TypeA_def TypeAAAA_def TypeCNAME_def TypeMX_def TypeTXT_def)
  from assms(2) show ?thesis
  proof (elim disjE)
    assume "Qtype q = TypeA"
    then show ?thesis using assms(1)
      by (auto simp: exact_record_def answer_hdr_def split: option.splits)
  next
    assume "Qtype q = TypeAAAA"
    then show ?thesis using assms(1) ne
      by (auto simp: exact_record_def answer_hdr_def split: option.splits)
  next
    assume "Qtype q = TypeCNAME"
    then show ?thesis using assms(1) ne
      by (auto simp: exact_record_def answer_hdr_def split: option.splits)
  next
    assume "Qtype q = TypeMX"
    then show ?thesis using assms(1) ne
      by (auto simp: exact_record_def answer_hdr_def split: option.splits)
  next
    assume "Qtype q = TypeTXT"
    then show ?thesis using assms(1) ne
      by (auto simp: exact_record_def answer_hdr_def split: option.splits)
  qed
qed

lemma extractTTL_wildcard_response:
  "Ttl (Hdr rr) = 300 \<Longrightarrow> extractTTL ((wildcard_response q rr)\<lparr>Id := i\<rparr>) = 300 * Second"
  by (simp add: extractTTL_def wildcard_response_def Let_def word_less_def)

text \<open>
  C10. Let the question \<open>q\<close> (of type A, AAAA, CNAME, MX or TXT) have no record under its
  own normalized name and a record under its first wildcard candidate (\<^verbatim>\<open>*.b.c\<close> for
  \<^verbatim>\<open>a.b.c\<close>). Then the local resolver returns a response whose question section is the
  wildcard question (name \<^verbatim>\<open>*.b.c.\<close>, different from the name asked) while its answer
  RR carries the name asked; and on a cache miss the handler writes exactly this response
  with the id of the query, and stores that same message in the cache under the key of
  the original question.
\<close>

theorem wildcard_response_names_wildcard:
  assumes five: "Qtype q = TypeA \<or> Qtype q = TypeAAAA \<or> Qtype q = TypeCNAME \<or>
                 Qtype q = TypeMX \<or> Qtype q = TypeTXT"
    and miss: "exact_record net (localResolver h) (ToLower (TrimSuffix_dot (Name q))) q = None"
    and hit: "exact_record net (localResolver h) (first_wildcard q) (wildcard_question q) = Some rr"
    and first: "Question r = q # qs"
    and cache_miss: "fst (Get (cache h) (GenerateCacheKey names q) now) = None"
  shows "Resolve (Suc (Suc fuel)) net (localResolver h) q = Some (Some (wildcard_response q rr)) \<and>
         Question (wildcard_response q rr) = [wildcard_question q] \<and>
         Name (wildcard_question q) = first_wildcard q @ ''.'' \<and>
         Name (wildcard_question q) \<noteq> Name q \<and>
         map (\<lambda>a. Hdr_Name (Hdr a)) (Answer (wildcard_response q rr)) = [Name q] \<and>
         ServeDNS (Suc (Suc fuel)) net names h r now later =
           Some ((wildcard_response q rr)\<lparr>Id := Id r\<rparr>,
                 Set (snd (Get (cache h) (GenerateCacheKey names q) now))
                   (GenerateCacheKey names q) ((wildcard_response q rr)\<lparr>Id := Id r\<rparr>)
                   (300 * Second) later)"
proof -
  have R: "Resolve (Suc (Suc fuel)) net (localResolver h) q = Some (Some (wildcard_response q rr))"
    using Resolve_first_wildcard [OF five miss hit] .
  have qt: "Qtype (wildcard_question q) = Qtype q" by (simp add: wildcard_question_def)
  have ttl: "Ttl (Hdr rr) = 300"
    using exact_record_Ttl [OF hit] five qt by simp
  have sup: "isSupportedType (Qtype q)"
    using five by (auto simp: isSupportedType_def)
  have pos: "(0::int) < 300 * Second" by (simp add: Second_def)
  have S: "ServeDNS (Suc (Suc fuel)) net names h r now later =
           Some ((wildcard_response q rr)\<lparr>Id := Id r\<rparr>,
                 Set (snd (Get (cache h) (GenerateCacheKey names q) now))
                   (GenerateCacheKey names q) ((wildcard_response q rr)\<lparr>Id := Id r\<rparr>)
                   (300 * Second) later)"
    using cache_miss pos
    by (cases "Get (cache h) (GenerateCacheKey names q) now")
       (simp add: ServeDNS_def first sup R Let_def extractTTL_wildcard_response [OF ttl]
          del: Resolve.simps)
  show ?thesis
    using R S wildcard_name_differs [OF miss hit]
    by (simp add: wildcard_response_def wildcard_question_def)
qed

lemma foo_domain: "ToLower (TrimSuffix_dot ''foo.example.'') = ''foo.example''"
  by (simp add: ToLower_def lower_char_def TrimSuffix_dot_def)

lemma foo_first_wildcard: "first_wildcard (question_A ''foo.example.'') = ''*.example''"
  by (simp add: first_wildcard_def foo_domain)

lemma foo_wildcard_question:
  "wildcard_question (question_A ''foo.example.'') = question_A ''*.example.''"
  unfolding wildcard_question_def foo_first_wildcard by (simp add: question_A_def)

lemma example_handler_sel [simp]:
  "localResolver example_handler = example_records"
  "cache example_handler = NewLRUCache 10 (300 * Second)"
  by (simp_all add: example_handler_def)

lemma Get_New [simp]: "Get (NewLRUCache cap d) key now = (None, NewLRUCache cap d)"
  by (simp add: Get_def NewLRUCache_def)

theorem wildcard_response_names_wildcard_witness:
  "map_option (\<lambda>(m, c). (Question m, map (\<lambda>a. Hdr_Name (Hdr a)) (Answer m), Id m, recency c))
     (ServeDNS 2 example_net example_names example_handler
        (query [question_A ''foo.example.'']) 0 0) =
   Some ([question_A ''*.example.''], [''foo.example.''], 7, [''foo.example.:A:IN''])"
proof -
  let ?q = "question_A ''foo.example.''"
  let ?rr = "\<lparr>Hdr = answer_hdr (question_A ''*.example.'') TypeA, Rdata = A_rdata [192, 0, 2, 7]\<rparr>"
  have five: "Qtype ?q = TypeA \<or> Qtype ?q = TypeAAAA \<or> Qtype ?q = TypeCNAME \<or>
              Qtype ?q = TypeMX \<or> Qtype ?q = TypeTXT" by simp
  have miss: "exact_record example_net (localResolver example_handler)
                (ToLower (TrimSuffix_dot (Name ?q))) ?q = None"
    by (simp add: foo_domain exact_record_def example_records_def no_records_def)
  have hit: "exact_record example_net (localResolver example_handler)
               (first_wildcard ?q) (wildcard_question ?q) = Some ?rr"
    by (simp add: foo_first_wildcard foo_wildcard_question exact_record_def example_records_def
          no_records_def example_net_def v4_prefix_def)
  have first: "Question (query [?q]) = ?q # []" by (simp add: query_def)
  have cm: "fst (Get (cache example_handler) (GenerateCacheKey example_names ?q) 0) = None"
    by simp
  let ?m = "(wildcard_response ?q ?rr)\<lparr>Id := Id (query [?q])\<rparr>"
  let ?k = "GenerateCacheKey example_names ?q"
  have S: "ServeDNS (Suc (Suc 0)) example_net example_names example_handler (query [?q]) 0 0 =
             Some (?m, Set (snd (Get (cache example_handler) ?k 0)) ?k ?m (300 * Second) 0)"
    using wildcard_response_names_wildcard [OF five miss hit first cm, of 0 0] by blast
  have two: "(2::nat) = Suc (Suc 0)" by simp
  have m: "Question ?m = [question_A ''*.example.''] \<and>
           map (\<lambda>a. Hdr_Name (Hdr a)) (Answer ?m) = [''foo.example.''] \<and> Id ?m = 7"
    by (simp add: wildcard_response_def foo_wildcard_question query_def)
  have k: "?k = ''foo.example.:A:IN''"
    by (simp add: GenerateCacheKey_def example_names_def TypeA_def ClassINET_def)
  have g: "snd (Get (cache example_handler) ?k 0) = NewLRUCache 10 (300 * Second)" by simp
  have c: "recency (Set (snd (Get (cache example_handler) ?k 0)) ?k ?m (300 * Second) 0) = [?k]"
    unfolding g by (simp add: Set_def NewLRUCache_def recency_def PushFront_def Let_def Second_def)
  show ?thesis
    unfolding two S using m c k by simp
qed

lemma example_miss:
  "Resolve (Suc fuel) example_net example_records (question_A ''example.com.'') = Some None"
proof -
  have d: "ToLower (TrimSuffix_dot ''example.com.'') = ''example.com''"
    by (simp add: ToLower_def lower_char_def TrimSuffix_dot_def)
  have e: "exact_record example_net example_records ''example.com'' (question_A ''example.com.'') = None"
    by (simp add: exact_record_def example_records_def no_records_def)
  have w: "wildcards (Split_dot ''example.com'') = [''*.com'', ''*.'']"
    by (simp add: wildcards_def upt_rec)
  have h: "\<not> hasWildcardMatch example_records ''example.com'' TypeA"
    unfolding hasWildcardMatch_def w
    by (simp add: wildcard_exists_def example_records_def no_records_def)
  show ?thesis by (simp add: d e h Let_def)
qed

theorem ServeDNS_error_shaping_witness:
  "ServeDNS 3 example_net example_names example_handler (query []) 0 0 =
     Some ((skeleton (query []))\<lparr>Rcode := RcodeFormatError\<rparr>, cache example_handler) \<and>
   ServeDNS 3 example_net example_names example_handler
       (query [\<lparr>Name = ''example.com.'', Qtype = 250, Qclass = ClassINET\<rparr>]) 0 0 =
     Some ((skeleton (query [\<lparr>Name = ''example.com.'', Qtype = 250, Qclass = ClassINET\<rparr>]))
             \<lparr>Rcode := RcodeNotImplemented\<rparr>, cache example_handler) \<and>
   ServeDNS 3 example_net example_names example_handler (query [question_A ''example.com.'']) 0 0 =
     Some ((skeleton (query [question_A ''example.com.'']))\<lparr>Rcode := RcodeServerFailure\<rparr>,
           cache example_handler)"
proof -
  let ?u = "\<lparr>Name = ''example.com.'', Qtype = 250, Qclass = ClassINET\<rparr>"
  let ?q = "question_A ''example.com.''"
  have a: "Question (query []) = []" by (simp add: query_def)
  have b: "Question (query [?u]) = ?u # [] \<and> Qtype ?u \<notin> supported_types"
    by (simp add: query_def supported_types_def TypeA_def TypeAAAA_def TypeCNAME_def TypeMX_def
          TypeTXT_def TypeNS_def TypeSOA_def TypePTR_def TypeHTTPS_def TypeCAA_def TypeSRV_def
          TypeSVCB_def TypeDS_def TypeDNSKEY_def TypeURI_def TypeNAPTR_def TypeSSHFP_def
          TypeTLSA_def TypeSMIMEA_def TypeCERT_def)
  have c: "Question (query [?q]) = ?q # [] \<and> Qtype ?q \<in> supported_types \<and>
           fst (Get (cache example_handler) (GenerateCacheKey example_names ?q) 0) = None \<and>
           Resolve 3 example_net (localResolver example_handler) ?q = Some None \<and>
           resolver example_handler ?q = Inl (Resolve_failed (Name ?q) 4 All_failed)"
    using example_miss [of 2]
    by (simp add: query_def supported_types_def example_handler_def del: Resolve.simps)
  have A: "ServeDNS 3 example_net example_names example_handler (query []) 0 0 =
     Some ((skeleton (query []))\<lparr>Rcode := RcodeFormatError\<rparr>, cache example_handler)"
    using ServeDNS_error_shaping [of "query []" 3 example_net example_names example_handler 0 0] a
    by blast
  have B: "ServeDNS 3 example_net example_names example_handler (query [?u]) 0 0 =
     Some ((skeleton (query [?u]))\<lparr>Rcode := RcodeNotImplemented\<rparr>, cache example_handler)"
    using ServeDNS_error_shaping [of "query [?u]" 3 example_net example_names example_handler 0 0] b
    by blast
  have C: "ServeDNS 3 example_net example_names example_handler (query [?q]) 0 0 =
     Some ((skeleton (query [?q]))\<lparr>Rcode := RcodeServerFailure\<rparr>,
           snd (Get (cache example_handler) (GenerateCacheKey example_names ?q) 0))"
    using ServeDNS_error_shaping [of "query [?q]" 3 example_net example_names example_handler 0 0] c
    by blast
  show ?thesis using A B C by simp
qed

subsection \<open>Configuration loading\<close>

text \<open>
  C4 fails on the code. \<^verbatim>\<open>Load\<close> validates the decoded configuration before it fills in
  the defaults, so a well-formed file that omits \<^verbatim>\<open>server.port\<close> is rejected with an
  invalid port 0, although \<^verbatim>\<open>setDefaults\<close> would give it port 53.
\<close>

theorem Load_port_omitted_rejected:
  "Load net path (Decoded port_omitted) = Inl (Invalid_configuration (Invalid_server_port 0)) \<and>
   Port (Server (setDefaults port_omitted)) = 53"
  by (simp add: Load_def validate_def port_omitted_def zero_Config_def setDefaults_def Let_def)

end
